theory Spec2Isabelle
  imports Complex_Main "HOL-Library.Multiset" "HOL-Library.Log_Nat"
    "HOL-Library.Char_ord" "HOL-Library.List_Lexorder"
begin

section \<open>Values and errors\<close>

text \<open>
  The analysis module works on Python dictionaries decoded from JSON. A value is one of
  the kinds the extraction schema can produce (string, integer, array) or null; a record
  is a finite map from field names to values. Floating point numbers, booleans and nested
  objects are outside the schema and are not part of the model. Characters are code
  points below 256.
\<close>

datatype json = JNull | JInt int | JStr string | JList "json list"

type_synonym result = "string \<rightharpoonup> json"

datatype error =
    ValueError
  | TypeError
  | AttributeError
  | NameError
  | IndexError
  | ZeroDivisionError
  | OverflowError
  | ServiceError string
  | RetryError error

section \<open>Batching\<close>

text \<open>
  \<^verbatim>\<open>range(start, stop, step)\<close>: a zero step raises, otherwise the length is computed
  up front and the elements are \<open>start + k * step\<close>.
\<close>

definition range_len :: "int \<Rightarrow> int \<Rightarrow> int \<Rightarrow> nat" where
  "range_len lo hi step =
     (if 0 < step \<and> lo < hi then nat (1 + (hi - 1 - lo) div step)
      else if step < 0 \<and> hi < lo then nat (1 + (lo - 1 - hi) div (- step))
      else 0)"

definition py_range :: "int \<Rightarrow> int \<Rightarrow> int \<Rightarrow> error + int list" where
  "py_range lo hi step =
     (if step = 0 then Inl ValueError
      else Inr (map (\<lambda>k. lo + int k * step) [0..<range_len lo hi step]))"

text \<open>\<^verbatim>\<open>xs[lo:hi]\<close>: negative bounds count from the end, all bounds are clamped.\<close>

definition slice_index :: "nat \<Rightarrow> int \<Rightarrow> nat" where
  "slice_index n i = (if i < 0 then nat (max 0 (i + int n)) else min (nat i) n)"

definition py_slice :: "'a list \<Rightarrow> int \<Rightarrow> int \<Rightarrow> 'a list" where
  "py_slice xs lo hi =
     (let l = slice_index (length xs) lo; h = slice_index (length xs) hi
      in take (h - l) (drop l xs))"

text \<open>
  The pairs \<open>(i, all_rows[i:i+bs])\<close> that the loop
  \<^verbatim>\<open>for i in range(0, len(all_rows), bs): batch = all_rows[i:i+bs]\<close> visits.
\<close>

definition batch_slices :: "int \<Rightarrow> 'a list \<Rightarrow> error + (int \<times> 'a list) list" where
  "batch_slices bs all_rows =
     (case py_range 0 (int (length all_rows)) bs of
        Inl e \<Rightarrow> Inl e
      | Inr starts \<Rightarrow> Inr (map (\<lambda>i. (i, py_slice all_rows i (i + bs))) starts))"

definition batches :: "int \<Rightarrow> 'a list \<Rightarrow> error + 'a list list" where
  "batches bs all_rows =
     (case batch_slices bs all_rows of Inl e \<Rightarrow> Inl e | Inr ibs \<Rightarrow> Inr (map snd ibs))"

text \<open>\<^verbatim>\<open>bs = max(1, int(args.batch_size))\<close>\<close>

definition effective_batch_size :: "int \<Rightarrow> int" where
  "effective_batch_size batch_size = max 1 batch_size"

section \<open>Extraction with retry\<close>

text \<open>
  The decorator on \<^verbatim>\<open>analyze_batch_with_openai\<close> is
  \<^verbatim>\<open>retry(wait=wait_exponential(multiplier=1, min=1, max=20), stop=stop_after_attempt(6))\<close>.
  After a failed attempt number \<open>n\<close> the library either stops (when \<open>n\<close> has reached the
  attempt limit) and raises a \<^verbatim>\<open>RetryError\<close> around the last exception, or sleeps
  \<open>wait n\<close> and tries again. Sleeping is modelled by recording the requested delay.
\<close>

definition wait_exponential :: "nat \<Rightarrow> nat \<Rightarrow> nat \<Rightarrow> nat \<Rightarrow> nat" where
  "wait_exponential multiplier mn mx attempt_number =
     max mn (min (multiplier * 2 ^ (attempt_number - 1)) mx)"

fun retry_from ::
  "(nat \<Rightarrow> nat) \<Rightarrow> ('w \<Rightarrow> (error + 'a) \<times> 'w) \<Rightarrow> nat \<Rightarrow> nat \<Rightarrow> 'w \<times> nat list
     \<Rightarrow> (error + 'a) \<times> 'w \<times> nat list" where
  "retry_from wait f 0 n (w, sl) =
     (case f w of
        (Inr r, w') \<Rightarrow> (Inr r, w', sl)
      | (Inl e, w') \<Rightarrow> (Inl (RetryError e), w', sl))"
| "retry_from wait f (Suc left) n (w, sl) =
     (case f w of
        (Inr r, w') \<Rightarrow> (Inr r, w', sl)
      | (Inl e, w') \<Rightarrow> retry_from wait f left (Suc n) (w', sl @ [wait n]))"

definition stop_after_attempt :: nat where
  "stop_after_attempt = 6"

text \<open>
  The undecorated body of \<^verbatim>\<open>analyze_batch_with_openai\<close> (client, prompt, service call,
  decoding of the reply) is the parameter \<open>attempt\<close>: given the batch and the state of
  the outside world it returns the list found under \<^verbatim>\<open>results\<close> in the decoded reply or
  the exception raised, and the new state of the world.
\<close>

definition analyze_batch_with_openai ::
  "('p list \<Rightarrow> 'w \<Rightarrow> (error + 'r list) \<times> 'w) \<Rightarrow> 'p list \<Rightarrow> 'w \<times> nat list
     \<Rightarrow> (error + 'r list) \<times> 'w \<times> nat list" where
  "analyze_batch_with_openai attempt batch =
     retry_from (wait_exponential 1 1 20) (attempt batch) (stop_after_attempt - 1) 1"

text \<open>
  The names bound at module level in \<^verbatim>\<open>analysis.py\<close>: those of its two import
  statements and of its own definitions. Neither \<^verbatim>\<open>sys\<close> nor \<^verbatim>\<open>os\<close> is among them. A
  name that a function body uses without binding it is looked up here (the built-in
  names, such as \<^verbatim>\<open>print\<close>, \<^verbatim>\<open>max\<close> and \<^verbatim>\<open>range\<close>, are found in any case), and the
  lookup of an unbound name raises \<^verbatim>\<open>NameError\<close>.
\<close>

definition module_globals :: "string list" where
  "module_globals =
     [''json'', ''retry'', ''wait_exponential'', ''stop_after_attempt'', ''_oai_client'',
      ''_model_name'', ''ANALYSIS_SCHEMA'', ''SYSTEM_PROMPT'', ''_to_prompt_items'',
      ''analyze_batch_with_openai'', ''_flatten_for_row'', ''_write_per_post_csv'',
      ''_write_per_post_md'', ''run_openai_analysis'']"

definition global_name :: "string \<Rightarrow> error + unit" where
  "global_name x = (if x \<in> set module_globals then Inr () else Inl NameError)"

text \<open>
  What a run leaves outside of itself: the state of the world behind the service, the
  delays slept, and the lines printed to the error stream. A line of the batching loop,
  \<^verbatim>\<open>[error] OpenAI analysis failed for batch {i}-{i+bs}: {e}\<close>, is kept as its three
  interpolated values.
\<close>

datatype log_entry = BatchFailed int int error

record 'w outside =
  world :: 'w
  slept :: "nat list"
  stderr :: "log_entry list"

text \<open>
  The handler \<^verbatim>\<open>print(f"[error] ... {i}-{i+bs}: {e}", file=sys.stderr)\<close>: the arguments
  are evaluated before anything is printed, and \<^verbatim>\<open>sys\<close> is a global name of the module.
\<close>

definition report_failure :: "int \<Rightarrow> int \<Rightarrow> error \<Rightarrow> 'w outside \<Rightarrow> error + 'w outside" where
  "report_failure i j e out =
     (case global_name ''sys'' of
        Inl err \<Rightarrow> Inl err
      | Inr u \<Rightarrow> Inr (out\<lparr>stderr := stderr out @ [BatchFailed i j e]\<rparr>))"

text \<open>
  The batching loop of \<^verbatim>\<open>run_openai_analysis\<close>, over the pairs \<open>(i, batch)\<close>. It returns
  the list \<^verbatim>\<open>analyses\<close>, or the exception that leaves the loop, and what the run has left
  outside by then. An exception raised inside the handler is not caught by anything.
\<close>

fun extract_loop ::
  "('p list \<Rightarrow> 'w \<Rightarrow> (error + 'r list) \<times> 'w) \<Rightarrow> int \<Rightarrow> (int \<times> 'p list) list
     \<Rightarrow> 'r list \<Rightarrow> 'w outside \<Rightarrow> (error + 'r list) \<times> 'w outside" where
  "extract_loop attempt bs [] analyses out = (Inr analyses, out)"
| "extract_loop attempt bs ((i, batch) # rest) analyses out =
     (case analyze_batch_with_openai attempt batch (world out, slept out) of
        (Inr results, w, sl) \<Rightarrow>
          extract_loop attempt bs rest (analyses @ results) (out\<lparr>world := w, slept := sl\<rparr>)
      | (Inl e, w, sl) \<Rightarrow>
          (case report_failure i (i + bs) e (out\<lparr>world := w, slept := sl\<rparr>) of
             Inl err \<Rightarrow> (Inl err, out\<lparr>world := w, slept := sl\<rparr>)
           | Inr out' \<Rightarrow> extract_loop attempt bs rest analyses out'))"

definition start :: "'w \<Rightarrow> 'w outside" where
  "start w = \<lparr>world = w, slept = [], stderr = []\<rparr>"

definition run_extraction ::
  "('p list \<Rightarrow> 'w \<Rightarrow> (error + 'r list) \<times> 'w) \<Rightarrow> int \<Rightarrow> 'p list \<Rightarrow> 'w
     \<Rightarrow> (error + 'r list) \<times> 'w outside" where
  "run_extraction attempt batch_size all_rows w =
     (let bs = effective_batch_size batch_size
      in case batch_slices bs all_rows of
           Inl e \<Rightarrow> (Inl e, start w)
         | Inr ibs \<Rightarrow> extract_loop attempt bs ibs [] (start w))"

text \<open>
  \<open>exhaust f k w = Some (e, w')\<close>: starting in \<open>w\<close>, \<open>k\<close> calls of \<open>f\<close> in a row all
  raise, the last one raises \<open>e\<close> and leaves the world in \<open>w'\<close>.
\<close>

fun exhaust :: "('w \<Rightarrow> (error + 'a) \<times> 'w) \<Rightarrow> nat \<Rightarrow> 'w \<Rightarrow> (error \<times> 'w) option" where
  "exhaust f 0 w = None"
| "exhaust f (Suc 0) w = (case f w of (Inl e, w') \<Rightarrow> Some (e, w') | (Inr r, w') \<Rightarrow> None)"
| "exhaust f (Suc (Suc k)) w =
     (case f w of (Inl e, w') \<Rightarrow> exhaust f (Suc k) w' | (Inr r, w') \<Rightarrow> None)"

section \<open>Strings and dynamic values\<close>

text \<open>\<^verbatim>\<open>str.isspace\<close>, \<^verbatim>\<open>str.lower\<close> and \<^verbatim>\<open>str.strip\<close> on code points below 256.\<close>

definition is_space :: "char \<Rightarrow> bool" where
  "is_space c =
     (let n = (of_char c :: nat)
      in (9 \<le> n \<and> n \<le> 13) \<or> (28 \<le> n \<and> n \<le> 32) \<or> n = 133 \<or> n = 160)"

definition lower_char :: "char \<Rightarrow> char" where
  "lower_char c =
     (let n = (of_char c :: nat)
      in if (65 \<le> n \<and> n \<le> 90) \<or> (192 \<le> n \<and> n \<le> 222 \<and> n \<noteq> 215)
         then char_of (n + 32) else c)"

definition lower :: "string \<Rightarrow> string" where
  "lower s = map lower_char s"

definition strip_with :: "(char \<Rightarrow> bool) \<Rightarrow> string \<Rightarrow> string" where
  "strip_with sp s = rev (dropWhile sp (rev (dropWhile sp s)))"

definition strip :: "string \<Rightarrow> string" where
  "strip s = strip_with is_space s"

text \<open>Truth value of an object, as \<^verbatim>\<open>or\<close>, \<^verbatim>\<open>not\<close> and \<^verbatim>\<open>if\<close> see it.\<close>

fun truthy :: "json \<Rightarrow> bool" where
  "truthy JNull = False"
| "truthy (JInt n) = (n \<noteq> 0)"
| "truthy (JStr s) = (s \<noteq> [])"
| "truthy (JList xs) = (xs \<noteq> [])"

text \<open>\<^verbatim>\<open>r.get(k)\<close> and \<^verbatim>\<open>r.get(k, d)\<close>.\<close>

definition get :: "result \<Rightarrow> string \<Rightarrow> json" where
  "get r k = (case r k of None \<Rightarrow> JNull | Some v \<Rightarrow> v)"

definition get_default :: "result \<Rightarrow> string \<Rightarrow> json \<Rightarrow> json" where
  "get_default r k d = (case r k of None \<Rightarrow> d | Some v \<Rightarrow> v)"

text \<open>
  \<^verbatim>\<open>int(x)\<close>. A string is stripped of white space (for \<^verbatim>\<open>int\<close> the separators 28 to 31
  are not white space), may carry one sign, and is a run of decimal digits in which
  single underscores may separate digits. (The interpreter's configurable cap on the
  number of digits of such a literal is left out.)
\<close>

definition is_int_space :: "char \<Rightarrow> bool" where
  "is_int_space c =
     (let n = (of_char c :: nat) in (9 \<le> n \<and> n \<le> 13) \<or> n = 32 \<or> n = 133 \<or> n = 160)"

definition is_digit :: "char \<Rightarrow> bool" where
  "is_digit c = (48 \<le> (of_char c :: nat) \<and> (of_char c :: nat) \<le> 57)"

definition digit_value :: "char \<Rightarrow> nat" where
  "digit_value c = of_char c - 48"

fun parse_digits :: "nat \<Rightarrow> string \<Rightarrow> nat option" where
  "parse_digits acc [] = Some acc"
| "parse_digits acc [c] = (if is_digit c then Some (10 * acc + digit_value c) else None)"
| "parse_digits acc (c # d # cs) =
     (if is_digit c then parse_digits (10 * acc + digit_value c) (d # cs)
      else if c = CHR ''_'' \<and> is_digit d then parse_digits (10 * acc + digit_value d) cs
      else None)"

definition parse_nat :: "string \<Rightarrow> nat option" where
  "parse_nat s =
     (case s of
        [] \<Rightarrow> None
      | c # cs \<Rightarrow> if is_digit c then parse_digits (digit_value c) cs else None)"

definition int_of_str :: "string \<Rightarrow> error + int" where
  "int_of_str s =
     (let t = strip_with is_int_space s;
          v = (case t of
                 [] \<Rightarrow> None
               | c # cs \<Rightarrow>
                   if c = CHR ''+'' then map_option int (parse_nat cs)
                   else if c = CHR ''-'' then map_option (\<lambda>n. - int n) (parse_nat cs)
                   else map_option int (parse_nat t))
      in case v of None \<Rightarrow> Inl ValueError | Some n \<Rightarrow> Inr n)"

fun py_int :: "json \<Rightarrow> error + int" where
  "py_int (JInt n) = Inr n"
| "py_int (JStr s) = int_of_str s"
| "py_int JNull = Inl TypeError"
| "py_int (JList xs) = Inl TypeError"

text \<open>Lists are not hashable and cannot enter a set.\<close>

fun hashable :: "json \<Rightarrow> bool" where
  "hashable (JList xs) = False"
| "hashable v = True"

text \<open>Iteration: a list yields its elements, a string its characters.\<close>

fun py_iter :: "json \<Rightarrow> error + json list" where
  "py_iter (JList xs) = Inr xs"
| "py_iter (JStr s) = Inr (map (\<lambda>c. JStr [c]) s)"
| "py_iter JNull = Inl TypeError"
| "py_iter (JInt n) = Inl TypeError"

text \<open>\<^verbatim>\<open>set(x)\<close>\<close>

definition py_set :: "json \<Rightarrow> error + json set" where
  "py_set v =
     (case py_iter v of
        Inl e \<Rightarrow> Inl e
      | Inr xs \<Rightarrow> if list_all hashable xs then Inr (set xs) else Inl TypeError)"

section \<open>Aggregation by dedupe key\<close>

record bucket =
  count :: nat
  examples :: "(json \<times> json) list"
  severity_sum :: int
  audiences :: "json set"
  links :: "json set"
  tags :: "json set"

definition empty_bucket :: bucket where
  "empty_bucket =
     \<lparr>count = 0, examples = [], severity_sum = 0, audiences = {}, links = {}, tags = {}\<rparr>"

text \<open>
  The dictionary \<^verbatim>\<open>buckets\<close> keeps its keys in the order of their first insertion: it is
  a list of key and value pairs with distinct keys. \<open>dict_set\<close> is \<^verbatim>\<open>d[k] = v\<close>.
\<close>

fun dict_set :: "'k \<Rightarrow> 'v \<Rightarrow> ('k \<times> 'v) list \<Rightarrow> ('k \<times> 'v) list" where
  "dict_set k v [] = [(k, v)]"
| "dict_set k v ((k', v') # kvs) =
     (if k = k' then (k, v) # kvs else (k', v') # dict_set k v kvs)"

text \<open>\<^verbatim>\<open>key = (r.get("dedupe_key") or "").lower().strip()\<close>\<close>

definition bucket_key :: "result \<Rightarrow> error + string" where
  "bucket_key r =
     (let v = get r ''dedupe_key''
      in if truthy v
         then (case v of JStr s \<Rightarrow> Inr (strip (lower s)) | _ \<Rightarrow> Inl AttributeError)
         else Inr (strip (lower [])))"

text \<open>
  The body of the loop after the bucket \<open>b\<close> has been fetched, in the order of the source:
  count, severity, audience, tags, links, examples. The first statement that raises ends
  the whole run.
\<close>

definition add_to_bucket :: "result \<Rightarrow> bucket \<Rightarrow> error + bucket" where
  "add_to_bucket r b =
     (case py_int (get_default r ''severity_1to5'' (JInt 3)) of
        Inl e \<Rightarrow> Inl e
      | Inr sev \<Rightarrow>
          let aud = get_default r ''target_audience'' (JStr [])
          in if \<not> hashable aud then Inl TypeError
             else (case py_set (get_default r ''primary_topic_tags'' (JList [])) of
                Inl e \<Rightarrow> Inl e
              | Inr ts \<Rightarrow>
                  (case py_iter (get_default r ''useful_links'' (JList [])) of
                     Inl e \<Rightarrow> Inl e
                   | Inr urls \<Rightarrow>
                       if \<not> list_all hashable urls then Inl TypeError
                       else Inr (b\<lparr>count := count b + 1,
                                   severity_sum := severity_sum b + sev,
                                   audiences := insert aud (audiences b),
                                   tags := tags b \<union> ts,
                                   links := links b \<union> set urls,
                                   examples :=
                                     (if length (examples b) < 5
                                      then examples b @ [(get r ''subreddit'', get r ''title'')]
                                      else examples b)\<rparr>))))"

fun aggregate_loop :: "(string \<times> bucket) list \<Rightarrow> result list \<Rightarrow> error + (string \<times> bucket) list" where
  "aggregate_loop buckets [] = Inr buckets"
| "aggregate_loop buckets (r # rs) =
     (case bucket_key r of
        Inl e \<Rightarrow> Inl e
      | Inr key \<Rightarrow>
          if key = [] then aggregate_loop buckets rs
          else (case add_to_bucket r
                       (case map_of buckets key of None \<Rightarrow> empty_bucket | Some b \<Rightarrow> b) of
                  Inl e \<Rightarrow> Inl e
                | Inr b' \<Rightarrow> aggregate_loop (dict_set key b' buckets) rs))"

definition aggregate :: "result list \<Rightarrow> error + (string \<times> bucket) list" where
  "aggregate rs = aggregate_loop [] rs"

subsection \<open>What one result contributes\<close>

text \<open>
  The values one result adds to its bucket, read off the loop body, and the bucket that
  a sequence of results sharing a key should produce according to the description of the
  aggregator: the number of results, the sum of their severities, the unions of their
  audiences, tags and links, and the first five example pairs.
\<close>

definition example_of :: "result \<Rightarrow> json \<times> json" where
  "example_of r = (get r ''subreddit'', get r ''title'')"

definition severity_of :: "result \<Rightarrow> int" where
  "severity_of r =
     (case py_int (get_default r ''severity_1to5'' (JInt 3)) of Inl e \<Rightarrow> 0 | Inr n \<Rightarrow> n)"

definition audience_of :: "result \<Rightarrow> json" where
  "audience_of r = get_default r ''target_audience'' (JStr [])"

definition tags_of :: "result \<Rightarrow> json set" where
  "tags_of r =
     (case py_set (get_default r ''primary_topic_tags'' (JList [])) of
        Inl e \<Rightarrow> {} | Inr ts \<Rightarrow> ts)"

definition links_of :: "result \<Rightarrow> json set" where
  "links_of r =
     (case py_iter (get_default r ''useful_links'' (JList [])) of
        Inl e \<Rightarrow> {} | Inr urls \<Rightarrow> set urls)"

definition merge :: "bucket \<Rightarrow> result \<Rightarrow> bucket" where
  "merge b r =
     b\<lparr>count := count b + 1,
       severity_sum := severity_sum b + severity_of r,
       audiences := insert (audience_of r) (audiences b),
       tags := tags b \<union> tags_of r,
       links := links b \<union> links_of r,
       examples :=
         (if length (examples b) < 5 then examples b @ [example_of r] else examples b)\<rparr>"

definition bucket_of :: "result list \<Rightarrow> bucket" where
  "bucket_of ms =
     \<lparr>count = length ms,
      examples = take 5 (map example_of ms),
      severity_sum = sum_list (map severity_of ms),
      audiences = set (map audience_of ms),
      links = \<Union> (set (map links_of ms)),
      tags = \<Union> (set (map tags_of ms))\<rparr>"

text \<open>The results whose grouping key is \<open>k\<close>, in input order.\<close>

definition members :: "string \<Rightarrow> result list \<Rightarrow> result list" where
  "members k rs = filter (\<lambda>r. bucket_key r = Inr k) rs"


text \<open>A result on which no statement of the loop body raises.\<close>

definition accepted :: "result \<Rightarrow> bool" where
  "accepted r =
     (case bucket_key r of
        Inl e \<Rightarrow> False
      | Inr key \<Rightarrow> key = [] \<or> (case add_to_bucket r empty_bucket of Inl e \<Rightarrow> False | Inr b \<Rightarrow> True))"

definition lookup_or_empty :: "(string \<times> bucket) list \<Rightarrow> string \<Rightarrow> bucket" where
  "lookup_or_empty buckets key = (case map_of buckets key of None \<Rightarrow> empty_bucket | Some b \<Rightarrow> b)"

text \<open>
  The reading of the examples list under which only distinct pairs are kept: the pairs
  of the results in encounter order, every pair at its first occurrence only, cut to five.
\<close>

definition distinct_examples :: "result list \<Rightarrow> (json \<times> json) list" where
  "distinct_examples ms = take 5 (rev (remdups (rev (map example_of ms))))"

subsection \<open>Sample results\<close>

definition sample_crash :: result where
  "sample_crash =
     [''post_id'' \<mapsto> JStr ''p1'', ''subreddit'' \<mapsto> JStr ''edtech'',
      ''title'' \<mapsto> JStr ''App crashes'', ''theme'' \<mapsto> JStr ''LMS/Platform UX'',
      ''problem_statements'' \<mapsto> JList [JStr ''the app crashes on login''],
      ''useful_links'' \<mapsto> JList [JStr ''https://example.org/a''],
      ''severity_1to5'' \<mapsto> JInt 4, ''dedupe_key'' \<mapsto> JStr '' LMS crashes '']"

definition sample_crash_again :: result where
  "sample_crash_again =
     [''post_id'' \<mapsto> JStr ''p2'', ''subreddit'' \<mapsto> JStr ''Teachers'',
      ''title'' \<mapsto> JStr ''Gradebook down'', ''theme'' \<mapsto> JStr ''LMS/Platform UX'',
      ''problem_statements'' \<mapsto> JList [JStr ''grades are lost''],
      ''dedupe_key'' \<mapsto> JStr ''lms CRASHES'']"

definition sample_blank :: result where
  "sample_blank =
     [''post_id'' \<mapsto> JStr ''p3'', ''subreddit'' \<mapsto> JStr ''edtech'',
      ''title'' \<mapsto> JStr ''Meme'', ''theme'' \<mapsto> JStr ''Other'',
      ''problem_statements'' \<mapsto> JList [], ''severity_1to5'' \<mapsto> JInt 5,
      ''dedupe_key'' \<mapsto> JStr ''   '']"

section \<open>Floating point numbers\<close>

text \<open>
  A Python float is a binary64 number; its value is kept as a rational. \<open>to_double q\<close> is
  the float nearest to \<open>q\<close>: the significand has 53 bits, the exponent of its last bit is
  at least \<open>-1074\<close>, and a tie goes to the even significand. A result beyond the largest
  float raises \<^verbatim>\<open>OverflowError\<close>. The sign of a zero is not kept.
\<close>

definition pow2 :: "int \<Rightarrow> rat" where
  "pow2 e = (if 0 \<le> e then 2 ^ nat e else 1 / 2 ^ nat (- e))"

definition round_half_even :: "rat \<Rightarrow> int" where
  "round_half_even x =
     (let f = \<lfloor>x\<rfloor>; d = x - of_int f
      in if d < 1 / 2 then f
         else if 1 / 2 < d then f + 1
         else if even f then f else f + 1)"

text \<open>The integer \<open>d\<close> with \<open>2 ^ d \<le> q < 2 ^ (d + 1)\<close>, for a positive \<open>q\<close>.\<close>

definition ilog2 :: "rat \<Rightarrow> int" where
  "ilog2 q =
     (let d = bitlen (fst (quotient_of q)) - bitlen (snd (quotient_of q))
      in if pow2 d \<le> q then d else d - 1)"

definition to_double :: "rat \<Rightarrow> rat" where
  "to_double q =
     (if q = 0 then 0
      else let e = max (ilog2 \<bar>q\<bar> - 52) (- 1074)
           in of_int (round_half_even (q / pow2 e)) * pow2 e)"

definition max_double :: rat where
  "max_double = (2 ^ 53 - 1) * 2 ^ 971"

definition py_float :: "rat \<Rightarrow> error + rat" where
  "py_float q = (let x = to_double q in if max_double < \<bar>x\<bar> then Inl OverflowError else Inr x)"

text \<open>\<^verbatim>\<open>a / b\<close> on integers: the float nearest to the exact quotient.\<close>

definition true_divide :: "int \<Rightarrow> int \<Rightarrow> error + rat" where
  "true_divide a b = (if b = 0 then Inl ZeroDivisionError else py_float (of_int a / of_int b))"

text \<open>
  \<^verbatim>\<open>round(x, ndigits)\<close> on a float, \<open>ndigits \<ge> 0\<close>: the exact value of \<open>x\<close> is rounded to
  the nearest multiple of \<open>10 ^ - ndigits\<close>, a tie going to the even multiple, and the
  result is the float nearest to that decimal.
\<close>

definition py_round :: "rat \<Rightarrow> nat \<Rightarrow> error + rat" where
  "py_round x ndigits = py_float (of_int (round_half_even (x * 10 ^ ndigits)) / 10 ^ ndigits)"

section \<open>The aggregated table\<close>

text \<open>\<^verbatim>\<open>sep.join(xs)\<close> on strings.\<close>

fun join :: "string \<Rightarrow> string list \<Rightarrow> string" where
  "join sep [] = []"
| "join sep [x] = x"
| "join sep (x # y # ys) = x @ sep @ join sep (y # ys)"

fun is_str :: "json \<Rightarrow> bool" where
  "is_str (JStr s) = True"
| "is_str v = False"

fun the_str :: "json \<Rightarrow> string" where
  "the_str (JStr s) = s"
| "the_str v = []"

text \<open>
  \<^verbatim>\<open>sep.join(sorted(A))\<close> on a set: strings are ordered by code points. An element that is
  not a string makes either the comparison in \<^verbatim>\<open>sorted\<close> or \<^verbatim>\<open>join\<close> raise \<^verbatim>\<open>TypeError\<close>.
\<close>

definition join_sorted :: "string \<Rightarrow> json set \<Rightarrow> error + string" where
  "join_sorted sep A =
     (if Ball A is_str then Inr (join sep (sorted_list_of_set (the_str ` A)))
      else Inl TypeError)"

text \<open>\<^verbatim>\<open>avg_sev = round(b["severity_sum"] / b["count"], 2)\<close>\<close>

definition avg_sev :: "bucket \<Rightarrow> error + rat" where
  "avg_sev b =
     (case true_divide (severity_sum b) (int (count b)) of
        Inl e \<Rightarrow> Inl e
      | Inr x \<Rightarrow> py_round x 2)"

text \<open>\<^verbatim>\<open>"; ".join(sorted(a for a in b["audiences"] if a))\<close>\<close>

definition audiences_column :: "bucket \<Rightarrow> error + string" where
  "audiences_column b = join_sorted ''; '' (Set.filter truthy (audiences b))"

text \<open>\<^verbatim>\<open>"; ".join(sorted(b["tags"]))[:300]\<close>\<close>

definition top_tags_column :: "bucket \<Rightarrow> error + string" where
  "top_tags_column b =
     (case join_sorted ''; '' (tags b) of Inl e \<Rightarrow> Inl e | Inr s \<Rightarrow> Inr (take 300 s))"

text \<open>\<^verbatim>\<open>"; ".join(e["title"] for e in b["examples"])[:300]\<close>\<close>

definition example_titles_column :: "bucket \<Rightarrow> error + string" where
  "example_titles_column b =
     (if list_all (\<lambda>e. is_str (snd e)) (examples b)
      then Inr (take 300 (join ''; '' (map (\<lambda>e. the_str (snd e)) (examples b))))
      else Inl TypeError)"

text \<open>
  One row of the aggregated table, its cells as values (the table writer prints the
  numbers and quotes the strings). The cells are computed in the order of the source.
\<close>

record agg_row =
  issue_key :: string
  posts :: nat
  avg_severity :: rat
  audiences_cell :: string
  top_tags :: string
  example_titles :: string
  links_count :: nat

definition agg_row_of :: "string \<times> bucket \<Rightarrow> error + agg_row" where
  "agg_row_of kb =
     (case avg_sev (snd kb) of
        Inl e \<Rightarrow> Inl e
      | Inr a \<Rightarrow>
          (case audiences_column (snd kb) of
             Inl e \<Rightarrow> Inl e
           | Inr au \<Rightarrow>
               (case top_tags_column (snd kb) of
                  Inl e \<Rightarrow> Inl e
                | Inr tg \<Rightarrow>
                    (case example_titles_column (snd kb) of
                       Inl e \<Rightarrow> Inl e
                     | Inr ti \<Rightarrow>
                         Inr \<lparr>issue_key = fst kb, posts = count (snd kb), avg_severity = a,
                              audiences_cell = au, top_tags = tg, example_titles = ti,
                              links_count = card (links (snd kb))\<rparr>))))"

text \<open>A loop that stops at the first element on which the body raises.\<close>

fun map_until_error :: "('a \<Rightarrow> error + 'b) \<Rightarrow> 'a list \<Rightarrow> error + 'b list" where
  "map_until_error f [] = Inr []"
| "map_until_error f (x # xs) =
     (case f x of
        Inl e \<Rightarrow> Inl e
      | Inr y \<Rightarrow> (case map_until_error f xs of Inl e \<Rightarrow> Inl e | Inr ys \<Rightarrow> Inr (y # ys)))"

text \<open>
  \<^verbatim>\<open>sorted(buckets.items(), key=lambda kv: kv[1]["count"], reverse=True)\<close>: a stable sort,
  buckets with equal counts keep the order of the dictionary.
\<close>

definition by_count_desc :: "(string \<times> bucket) list \<Rightarrow> (string \<times> bucket) list" where
  "by_count_desc buckets = sort_key (\<lambda>kb. - int (count (snd kb))) buckets"

definition aggregated_header :: "string list" where
  "aggregated_header =
     [''issue_key'', ''posts'', ''avg_severity'', ''audiences'', ''top_tags'',
      ''example_titles'', ''links_count'']"

definition aggregated_rows :: "(string \<times> bucket) list \<Rightarrow> error + agg_row list" where
  "aggregated_rows buckets = map_until_error agg_row_of (by_count_desc buckets)"

text \<open>The properties declared by \<^verbatim>\<open>ANALYSIS_SCHEMA\<close>.\<close>

definition schema_properties :: "string list" where
  "schema_properties =
     [''post_id'', ''subreddit'', ''title'', ''theme'', ''sub_theme'', ''stakeholders'',
      ''problem_statements'', ''questions_users_ask'', ''proposed_solutions'',
      ''useful_links'', ''sentiment'', ''severity_1to5'', ''dedupe_key'']"

definition sample_minor :: result where
  "sample_minor =
     [''post_id'' \<mapsto> JStr ''p4'', ''subreddit'' \<mapsto> JStr ''edtech'',
      ''title'' \<mapsto> JStr ''Price went up'', ''theme'' \<mapsto> JStr ''Pricing'',
      ''problem_statements'' \<mapsto> JList [JStr ''the plan costs more''],
      ''severity_1to5'' \<mapsto> JInt 1, ''dedupe_key'' \<mapsto> JStr ''Pricing'']"

definition sample_medium :: result where
  "sample_medium =
     [''post_id'' \<mapsto> JStr ''p5'', ''subreddit'' \<mapsto> JStr ''Teachers'',
      ''title'' \<mapsto> JStr ''Licence too dear'', ''theme'' \<mapsto> JStr ''Pricing'',
      ''problem_statements'' \<mapsto> JList [JStr ''the school cannot pay''],
      ''severity_1to5'' \<mapsto> JInt 3, ''dedupe_key'' \<mapsto> JStr ''pricing'']"

definition sample_major :: result where
  "sample_major =
     [''post_id'' \<mapsto> JStr ''p6'', ''subreddit'' \<mapsto> JStr ''edtech'',
      ''title'' \<mapsto> JStr ''Courses dropped'', ''theme'' \<mapsto> JStr ''Pricing'',
      ''problem_statements'' \<mapsto> JList [JStr ''courses are cancelled over cost''],
      ''severity_1to5'' \<mapsto> JInt 5, ''dedupe_key'' \<mapsto> JStr ''pricing '']"

definition sample_unrated :: result where
  "sample_unrated =
     [''post_id'' \<mapsto> JStr ''p7'', ''subreddit'' \<mapsto> JStr ''Teachers'',
      ''title'' \<mapsto> JStr ''Fees'', ''theme'' \<mapsto> JStr ''Pricing'',
      ''problem_statements'' \<mapsto> JList [JStr ''fees are unclear''],
      ''dedupe_key'' \<mapsto> JStr ''pricing'']"

text \<open>
  A result as the schema describes it, as far as the aggregator reads it: the required
  \<open>dedupe_key\<close> and \<open>title\<close> are strings, \<open>severity_1to5\<close> is absent or an integer from 1
  to 5, \<open>useful_links\<close> is absent or an array of strings. The two fields that the
  aggregator reads although the schema does not declare them, \<open>target_audience\<close> and
  \<open>primary_topic_tags\<close>, are absent or a string and an array of strings.
\<close>

fun str_list :: "json \<Rightarrow> bool" where
  "str_list (JList xs) = list_all is_str xs"
| "str_list v = False"

definition severity_in_range :: "result \<Rightarrow> bool" where
  "severity_in_range r =
     (case r ''severity_1to5'' of
        None \<Rightarrow> True
      | Some v \<Rightarrow> (case v of JInt n \<Rightarrow> 1 \<le> n \<and> n \<le> 5 | _ \<Rightarrow> False))"

definition conforming :: "result \<Rightarrow> bool" where
  "conforming r =
     (is_str (get r ''dedupe_key'') \<and> is_str (get r ''title'') \<and> severity_in_range r
      \<and> str_list (get_default r ''useful_links'' (JList []))
      \<and> is_str (get_default r ''target_audience'' (JStr []))
      \<and> str_list (get_default r ''primary_topic_tags'' (JList [])))"

section \<open>Flattening and the per-post tables\<close>

definition newline :: char where "newline = CHR 0x0A"
definition tab :: char where "tab = CHR 0x09"
definition carriage_return :: char where "carriage_return = CHR 0x0D"
definition backslash :: char where "backslash = CHR 0x5C"
definition quote :: char where "quote = CHR 0x27"
definition double_quote :: char where "double_quote = CHR 0x22"

text \<open>\<^verbatim>\<open>s.replace(c, new)\<close> for a single character \<open>c\<close>.\<close>

definition replace_char :: "char \<Rightarrow> string \<Rightarrow> string \<Rightarrow> string" where
  "replace_char c new s = concat (map (\<lambda>d. if d = c then new else [d]) s)"

text \<open>
  \<^verbatim>\<open>str\<close> and \<^verbatim>\<open>repr\<close>. An integer is printed in decimal (the interpreter's cap on the
  number of digits is left out). The \<^verbatim>\<open>repr\<close> of a string is quoted, with double quotes
  only when it holds a single quote and no double quote; the quote, the backslash and
  the characters that are not printable are escaped.
\<close>

function digits_of :: "nat \<Rightarrow> string" where
  "digits_of n =
     (if n < 10 then [char_of (48 + n)]
      else digits_of (n div 10) @ [char_of (48 + n mod 10)])"
  by pat_completeness auto
termination
  by (relation "measure (\<lambda>n. n)") auto

definition str_of_int :: "int \<Rightarrow> string" where
  "str_of_int n = (if n < 0 then CHR ''-'' # digits_of (nat (- n)) else digits_of (nat n))"

definition is_printable :: "char \<Rightarrow> bool" where
  "is_printable c =
     (let n = (of_char c :: nat) in (32 \<le> n \<and> n < 127) \<or> (161 \<le> n \<and> n \<noteq> 173))"

definition hex_digit :: "nat \<Rightarrow> char" where
  "hex_digit n = (if n < 10 then char_of (48 + n) else char_of (87 + n))"

definition repr_char :: "char \<Rightarrow> char \<Rightarrow> string" where
  "repr_char q c =
     (if c = q \<or> c = backslash then [backslash, c]
      else if c = tab then [backslash, CHR ''t'']
      else if c = newline then [backslash, CHR ''n'']
      else if c = carriage_return then [backslash, CHR ''r'']
      else if is_printable c then [c]
      else [backslash, CHR ''x'', hex_digit ((of_char c :: nat) div 16),
            hex_digit ((of_char c :: nat) mod 16)])"

definition repr_str :: "string \<Rightarrow> string" where
  "repr_str s =
     (let q = (if quote \<in> set s \<and> double_quote \<notin> set s then double_quote else quote)
      in q # concat (map (repr_char q) s) @ [q])"

fun py_repr :: "json \<Rightarrow> string" where
  "py_repr JNull = ''None''"
| "py_repr (JInt n) = str_of_int n"
| "py_repr (JStr s) = repr_str s"
| "py_repr (JList xs) = ''['' @ join '', '' (map py_repr xs) @ '']''"

fun py_str :: "json \<Rightarrow> string" where
  "py_str (JStr s) = s"
| "py_str v = py_repr v"

text \<open>
  The inner function \<^verbatim>\<open>join(arr, sep)\<close> of \<^verbatim>\<open>_flatten_for_row\<close>:
  \<^verbatim>\<open>if not arr: return ""\<close>, then
  \<^verbatim>\<open>sep.join([str(x).replace("\n"," ").strip() for x in arr if str(x).strip()])\<close>.
\<close>

definition join_field :: "json \<Rightarrow> string \<Rightarrow> error + string" where
  "join_field arr sep =
     (if \<not> truthy arr then Inr []
      else (case py_iter arr of
              Inl e \<Rightarrow> Inl e
            | Inr xs \<Rightarrow>
                Inr (join sep
                      (map (\<lambda>x. strip (replace_char newline '' '' (py_str x)))
                           (filter (\<lambda>x. strip (py_str x) \<noteq> []) xs)))))"

text \<open>\<^verbatim>\<open>(a.get("title","") or "").replace("\n"," ").strip()\<close>\<close>

definition title_cell :: "result \<Rightarrow> error + string" where
  "title_cell a =
     (let v = get_default a ''title'' (JStr [])
      in if truthy v
         then (case v of
                 JStr s \<Rightarrow> Inr (strip (replace_char newline '' '' s))
               | _ \<Rightarrow> Inl AttributeError)
         else Inr (strip (replace_char newline '' '' [])))"

text \<open>
  \<^verbatim>\<open>_flatten_for_row\<close>: the flat row is a dictionary, kept as the list of its items in the
  order of the dictionary display. Its values are computed in that order.
\<close>

definition flatten_for_row :: "result \<Rightarrow> error + (string \<times> json) list" where
  "flatten_for_row a =
     (case title_cell a of
        Inl e \<Rightarrow> Inl e
      | Inr title \<Rightarrow>
     (case join_field (get_default a ''stakeholders'' (JList [])) ''; '' of
        Inl e \<Rightarrow> Inl e
      | Inr stakeholders \<Rightarrow>
     (case join_field (get_default a ''problem_statements'' (JList [])) '' | '' of
        Inl e \<Rightarrow> Inl e
      | Inr problems \<Rightarrow>
     (case join_field (get_default a ''questions_users_ask'' (JList [])) '' | '' of
        Inl e \<Rightarrow> Inl e
      | Inr questions \<Rightarrow>
     (case join_field (get_default a ''proposed_solutions'' (JList [])) '' | '' of
        Inl e \<Rightarrow> Inl e
      | Inr solutions \<Rightarrow>
     (case join_field (get_default a ''useful_links'' (JList [])) '' '' of
        Inl e \<Rightarrow> Inl e
      | Inr useful \<Rightarrow>
          Inr [(''post_id'', get_default a ''post_id'' (JStr [])),
               (''subreddit'', get_default a ''subreddit'' (JStr [])),
               (''title'', JStr title),
               (''theme'', get_default a ''theme'' (JStr [])),
               (''sub_theme'', get_default a ''sub_theme'' (JStr [])),
               (''stakeholders'', JStr stakeholders),
               (''problem_statements'', JStr problems),
               (''questions_users_ask'', JStr questions),
               (''proposed_solutions'', JStr solutions),
               (''useful_links'', JStr useful),
               (''sentiment'', get_default a ''sentiment'' (JStr [])),
               (''severity_1to5'', get_default a ''severity_1to5'' (JStr [])),
               (''dedupe_key'', get_default a ''dedupe_key'' (JStr []))]))))))"

text \<open>\<^verbatim>\<open>r.get(k, "")\<close> on a flat row.\<close>

definition row_get :: "(string \<times> json) list \<Rightarrow> string \<Rightarrow> json" where
  "row_get r k = (case map_of r k of None \<Rightarrow> JStr [] | Some v \<Rightarrow> v)"

text \<open>
  The text the table writer puts in a cell: nothing for \<^verbatim>\<open>None\<close>, a string as it is,
  \<^verbatim>\<open>str\<close> of anything else. Quoting and line ends are the writer's and are not modelled:
  a table file is the list of its rows, a row the list of its cells.
\<close>

fun csv_cell :: "json \<Rightarrow> string" where
  "csv_cell JNull = []"
| "csv_cell v = py_str v"

definition fallback_fieldnames :: "string list" where
  "fallback_fieldnames =
     [''post_id'', ''subreddit'', ''title'', ''sentiment'', ''severity_1to5'',
      ''target_audience'', ''primary_topic_tags'', ''problem_statements'',
      ''questions_users_ask'', ''proposed_solutions'', ''useful_links'', ''dedupe_key'']"

text \<open>
  \<^verbatim>\<open>_write_per_post_csv\<close>: the rows of the file written, the header row first. With no
  analyses, \<^verbatim>\<open>rows\<close> becomes one row of empty strings under the fallback field names;
  the header is written from the keys of \<^verbatim>\<open>rows[0]\<close> and then every element of
  \<^verbatim>\<open>rows\<close> is written.
\<close>

definition write_per_post_csv :: "result list \<Rightarrow> error + string list list" where
  "write_per_post_csv analyses =
     (case map_until_error flatten_for_row analyses of
        Inl e \<Rightarrow> Inl e
      | Inr flat \<Rightarrow>
          let rows = (if flat = [] then [map (\<lambda>k. (k, JStr [])) fallback_fieldnames] else flat)
          in (case rows of
                [] \<Rightarrow> Inl IndexError
              | r0 # rest \<Rightarrow>
                  let fieldnames = map fst r0
                  in Inr (fieldnames #
                          map (\<lambda>r. map (\<lambda>k. csv_cell (row_get r k)) fieldnames) rows)))"

definition md_headers :: "string list" where
  "md_headers =
     [''post_id'', ''subreddit'', ''title'', ''sentiment'', ''severity_1to5'',
      ''target_audience'', ''primary_topic_tags'', ''problem_statements'',
      ''questions_users_ask'', ''proposed_solutions'', ''useful_links'', ''dedupe_key'']"

text \<open>\<^verbatim>\<open>esc(x) = str(x).replace("|", "\\|")\<close>\<close>

definition esc :: "json \<Rightarrow> string" where
  "esc x = replace_char (CHR ''|'') [backslash, CHR ''|''] (py_str x)"

text \<open>
  \<^verbatim>\<open>_write_per_post_md\<close>: the strings written to the file, one per call of \<^verbatim>\<open>f.write\<close>:
  the header line, the separator line, and one line for each of the first
  \<^verbatim>\<open>max(1, int(top_n))\<close> flat rows.
\<close>

definition write_per_post_md :: "result list \<Rightarrow> int \<Rightarrow> error + string list" where
  "write_per_post_md analyses top_n =
     (case map_until_error flatten_for_row analyses of
        Inl e \<Rightarrow> Inl e
      | Inr flat \<Rightarrow>
          let rows = py_slice flat 0 (max 1 top_n)
          in Inr ([''| '' @ join '' | '' md_headers @ '' |'' @ [newline],
                   ''|'' @ join ''|'' (replicate (length md_headers) ''---'') @ ''|'' @ [newline]]
                  @ map (\<lambda>r. ''| '' @ join '' | '' (map (\<lambda>h. esc (row_get r h)) md_headers)
                                @ '' |'' @ [newline])
                        rows))"

section \<open>Properties of batching\<close>

lemma py_slice_take_drop:
  "py_slice xs (int i) (int i + int n) = take n (drop i xs)"
proof (cases "i \<le> length xs")
  case True
  then show ?thesis
    by (simp add: py_slice_def slice_index_def Let_def nat_add_distrib min_def)
next
  case False
  then show ?thesis
    by (simp add: py_slice_def slice_index_def Let_def nat_add_distrib min_def)
qed

lemma concat_chunks:
  "concat (map (\<lambda>k. take n (drop (k * n) xs)) [0..<m]) = take (m * n) xs"
proof (induction m)
  case 0
  show ?case by simp
next
  case (Suc m)
  have "take (m * n) xs @ take n (drop (m * n) xs) = take (m * n + n) xs"
    by (simp add: take_add)
  with Suc show ?case by (simp add: add.commute)
qed

lemma div_aux:
  fixes L B :: int
  assumes "0 < B" "0 < L"
  shows "- ((- L) div B) = 1 + (L - 1) div B"
proof -
  define q where "q = (L - 1) div B"
  define r where "r = (L - 1) mod B"
  have L: "L - 1 = B * q + r" and r: "0 \<le> r" "r < B"
    using assms by (simp_all add: q_def r_def)
  have "- L = B * (- q - 1) + (B - 1 - r)" using L by (simp add: algebra_simps)
  moreover have "0 \<le> B - 1 - r" "B - 1 - r < B" using r by simp_all
  ultimately have "(- L) div B = - q - 1"
    by (metis add.commute div_mult_self2 div_pos_pos_trivial less_irrefl assms(1) add_0)
  then show ?thesis by (simp add: q_def)
qed

lemma range_len_pos:
  assumes "0 < B"
  shows "int (range_len 0 (int L) B) = \<lceil>real L / real_of_int B\<rceil>"
proof (cases "L = 0")
  case True
  then show ?thesis by (simp add: range_len_def)
next
  case False
  then have L: "0 < int L" by simp
  have "\<lceil>real L / real_of_int B\<rceil> = \<lceil>real_of_int (int L) / real_of_int B\<rceil>" by simp
  also have "\<dots> = - ((- int L) div B)"
    by (simp only: ceiling_divide_eq_div)
  also have "\<dots> = 1 + (int L - 1) div B"
    using assms L by (rule div_aux)
  finally have c: "\<lceil>real L / real_of_int B\<rceil> = 1 + (int L - 1) div B" .
  have "0 \<le> (int L - 1) div B" using assms L by (simp add: pos_imp_zdiv_nonneg_iff)
  then show ?thesis using False assms c
    by (simp add: range_len_def)
qed

lemma batch_slices_pos:
  assumes "0 < B"
  shows "batch_slices B rows =
     Inr (map (\<lambda>k. (int k * B, take (nat B) (drop (k * nat B) rows)))
              [0..<range_len 0 (int (length rows)) B])"
proof -
  have "py_slice rows (int k * B) (int k * B + B) = take (nat B) (drop (k * nat B) rows)" for k
  proof -
    have "int k * B = int (k * nat B)" using assms by simp
    moreover have "B = int (nat B)" using assms by simp
    ultimately show ?thesis using py_slice_take_drop [of rows "k * nat B" "nat B"] by simp
  qed
  then show ?thesis using assms by (simp add: batch_slices_def py_range_def)
qed

lemma range_len_covers:
  assumes "0 < B"
  shows "L \<le> range_len 0 (int L) B * nat B"
proof -
  have "real L / real_of_int B \<le> real_of_int \<lceil>real L / real_of_int B\<rceil>" by (rule le_of_int_ceiling)
  then have "real L / real_of_int B \<le> real (range_len 0 (int L) B)"
    using range_len_pos [OF assms, of L] by (metis of_int_of_nat_eq)
  then have "real L \<le> real (range_len 0 (int L) B) * real_of_int B"
    using assms by (simp add: pos_divide_le_eq)
  also have "\<dots> = real (range_len 0 (int L) B * nat B)" using assms by simp
  finally show ?thesis by (simp only: of_nat_le_iff)
qed

lemma range_len_tight:
  assumes "0 < B" "Suc k < range_len 0 (int L) B"
  shows "Suc k * nat B < L"
proof -
  have "int (Suc k) < \<lceil>real L / real_of_int B\<rceil>"
    using range_len_pos [OF assms(1), of L] assms(2) by linarith
  then have "real (Suc k) < real L / real_of_int B"
    by (metis less_ceiling_iff of_int_of_nat_eq)
  then have "real (Suc k) * real_of_int B < real L"
    using assms by (simp add: pos_less_divide_eq)
  moreover have "real (Suc k) * real_of_int B = real (Suc k * nat B)"
    using assms by (simp add: algebra_simps)
  ultimately show ?thesis by (simp only: of_nat_less_iff)
qed

lemma batches_pos:
  assumes "0 < B"
  shows "batches B rows =
     Inr (map (\<lambda>k. take (nat B) (drop (k * nat B) rows))
              [0..<range_len 0 (int (length rows)) B])"
  by (simp add: batches_def batch_slices_pos [OF assms] comp_def)

lemma batches_shape:
  assumes "1 \<le> B"
  shows "\<exists>bss. batches B rows = Inr bss
           \<and> int (length bss) = \<lceil>real (length rows) / real_of_int B\<rceil>
           \<and> (\<forall>j < length bss. bss ! j = take (nat B) (drop (j * nat B) rows))
           \<and> (\<forall>j < length bss. int (length (bss ! j)) \<le> B)
           \<and> (\<forall>j. Suc j < length bss \<longrightarrow> int (length (bss ! j)) = B)
           \<and> concat bss = rows"
proof -
  from assms have B: "0 < B" by simp
  define m where "m = range_len 0 (int (length rows)) B"
  define bss where "bss = map (\<lambda>k. take (nat B) (drop (k * nat B) rows)) [0..<m]"
  have b: "batches B rows = Inr bss"
    by (simp add: batches_pos [OF B] bss_def m_def)
  have len: "length bss = m" by (simp add: bss_def)
  have c: "int (length bss) = \<lceil>real (length rows) / real_of_int B\<rceil>"
    using range_len_pos [OF B, of "length rows"] by (simp add: len m_def)
  have nth: "bss ! j = take (nat B) (drop (j * nat B) rows)" if "j < length bss" for j
    using that by (simp add: bss_def)
  have le: "int (length (bss ! j)) \<le> B" if "j < length bss" for j
    using that B by (simp add: nth)
  have full: "int (length (bss ! j)) = B" if "Suc j < length bss" for j
  proof -
    have "Suc j * nat B < length rows"
      using range_len_tight [OF B, of j "length rows"] that by (simp add: len m_def)
    then have "nat B \<le> length rows - j * nat B" by simp
    then show ?thesis using that B by (simp add: nth min_def)
  qed
  have "concat bss = take (m * nat B) rows"
    by (simp add: bss_def concat_chunks)
  also have "\<dots> = rows"
    using range_len_covers [OF B, of "length rows"] by (simp add: m_def)
  finally have cc: "concat bss = rows" .
  from b c nth le full cc show ?thesis by blast
qed

text \<open>
  What the guard \<^verbatim>\<open>max(1, ...)\<close> keeps away: a zero step makes \<^verbatim>\<open>range\<close> raise, and a
  negative step makes the loop visit nothing.
\<close>

lemma batches_zero: "batches 0 rows = Inl ValueError"
  by (simp add: batches_def batch_slices_def py_range_def)

lemma batches_negative: "B < 0 \<Longrightarrow> batches B rows = Inr []"
  by (simp add: batches_def batch_slices_def py_range_def range_len_def)

text \<open>
  Claim C1. For every batch size \<open>B \<ge> 1\<close> and every input sequence of length \<open>L\<close>, the
  batching loop produces \<open>\<lceil>L / B\<rceil>\<close> slices; slice \<open>j\<close> is the \<open>B\<close> elements starting at
  position \<open>j * B\<close> (so the slices are contiguous and do not overlap), every slice has
  length at most \<open>B\<close>, every slice but the last has length exactly \<open>B\<close>, and the
  concatenation of the slices in order is the input.
\<close>

theorem batching_slices:
  assumes "1 \<le> B"
  shows "\<exists>bss. batches B rows = Inr bss
           \<and> int (length bss) = \<lceil>real (length rows) / real_of_int B\<rceil>
           \<and> (\<forall>j < length bss. bss ! j = take (nat B) (drop (j * nat B) rows))
           \<and> (\<forall>j < length bss. int (length (bss ! j)) \<le> B)
           \<and> (\<forall>j. Suc j < length bss \<longrightarrow> int (length (bss ! j)) = B)
           \<and> concat bss = rows"
  using assms by (rule batches_shape)

theorem batching_slices_witness:
  "(1::int) \<le> 2 \<and> batches 2 [10, 20, 30 :: nat] = Inr [[10, 20], [30]]"
proof -
  have h: "(1::int) \<le> 2" by simp
  from batching_slices [OF h, of "[10, 20, 30 :: nat]"]
  obtain bss where b: "batches 2 [10, 20, 30 :: nat] = Inr bss"
    and n: "\<forall>j < length bss. bss ! j = take (nat 2) (drop (j * nat 2) [10, 20, 30 :: nat])"
    and l: "int (length bss) = \<lceil>real (length [10, 20, 30 :: nat]) / real_of_int 2\<rceil>"
    by blast
  have "\<lceil>(3::real) / 2\<rceil> = 2" by (simp add: ceiling_eq_iff)
  with l have len: "length bss = 2" by simp
  then obtain x y where xy: "bss = [x, y]"
    by (auto simp: numeral_2_eq_2 length_Suc_conv)
  have "bss ! 0 = [10, 20]" using n len by simp
  moreover have "bss ! 1 = [30]" using n len by simp
  ultimately have "bss = [[10, 20], [30]]" using xy by simp
  with b h show ?thesis by simp
qed

section \<open>Properties of extraction\<close>

lemma retry_from_slept:
  "retry_from wait f left n (w, sl) =
     (case retry_from wait f left n (w, []) of (r, w', sl') \<Rightarrow> (r, w', sl @ sl'))"
proof (induction left arbitrary: n w sl)
  case 0
  show ?case by (simp split: prod.splits sum.splits)
next
  case (Suc left)
  show ?case
  proof (cases "f w")
    case (Pair r w')
    show ?thesis
    proof (cases r)
      case (Inl e)
      with Pair show ?thesis
        using Suc.IH [of "Suc n" w' "sl @ [wait n]"] Suc.IH [of "Suc n" w' "[wait n]"]
        by (simp split: prod.splits)
    next
      case (Inr x)
      with Pair show ?thesis by simp
    qed
  qed
qed

lemma retry_from_exhaust:
  "exhaust f (Suc left) w = Some (e, w') \<Longrightarrow>
   retry_from wait f left n (w, sl) = (Inl (RetryError e), w', sl @ map wait [n..<n + left])"
proof (induction left arbitrary: n w sl)
  case 0
  then show ?case by (simp split: prod.splits sum.splits)
next
  case (Suc left)
  then obtain e0 w0 where f: "f w = (Inl e0, w0)" and r: "exhaust f (Suc left) w0 = Some (e, w')"
    by (auto split: prod.splits sum.splits)
  have "[n..<n + Suc left] = n # [Suc n..<Suc n + left]"
    by (simp add: upt_rec)
  with Suc.IH [OF r, of "Suc n" "sl @ [wait n]"] f show ?case by simp
qed

lemma backoff_delays: "map (wait_exponential 1 1 20) [1..<1 + 5] = [1, 2, 4, 8, 16]"
  by (simp add: wait_exponential_def upt_rec)

lemma analyze_exhausted:
  assumes "exhaust (attempt batch) 6 w = Some (e, w')"
  shows "analyze_batch_with_openai attempt batch (w, sl) =
           (Inl (RetryError e), w', sl @ [1, 2, 4, 8, 16])"
proof -
  have "exhaust (attempt batch) (Suc 5) w = Some (e, w')" using assms by simp
  from retry_from_exhaust [OF this, of "wait_exponential 1 1 20" 1 sl] show ?thesis
    by (simp only: analyze_batch_with_openai_def stop_after_attempt_def backoff_delays) simp
qed

lemma analyze_first_success:
  assumes "attempt batch w = (Inr rs, w')"
  shows "analyze_batch_with_openai attempt batch (w, sl) = (Inr rs, w', sl)"
  using assms
  by (simp add: analyze_batch_with_openai_def stop_after_attempt_def eval_nat_numeral)

lemma sys_unbound: "global_name ''sys'' = Inl NameError"
  by (simp add: global_name_def module_globals_def)

lemma report_failure_raises: "report_failure i j e out = Inl NameError"
  by (simp add: report_failure_def sys_unbound)

lemma succeeded_batch_kept:
  assumes "attempt batch (world out) = (Inr rs, w')"
  shows "extract_loop attempt bs ((i, batch) # rest) analyses out =
           extract_loop attempt bs rest (analyses @ rs) (out\<lparr>world := w'\<rparr>)"
  by (simp add: analyze_first_success [where attempt = attempt and batch = batch, OF assms])

lemma failed_batch_ends_run:
  assumes "exhaust (attempt batch) 6 (world out) = Some (e, w')"
  shows "extract_loop attempt bs ((i, batch) # rest) analyses out =
           (Inl NameError, out\<lparr>world := w', slept := slept out @ [1, 2, 4, 8, 16]\<rparr>)"
  by (simp add: analyze_exhausted [where attempt = attempt and batch = batch, OF assms]
      report_failure_raises)

lemma extract_loop_error:
  "fst (extract_loop attempt bs ibs analyses out) = Inl e \<Longrightarrow> e = NameError"
proof (induction ibs arbitrary: analyses out)
  case Nil
  then show ?case by simp
next
  case (Cons ib ibs)
  obtain i batch where ib: "ib = (i, batch)" by (cases ib)
  obtain r w sl where a: "analyze_batch_with_openai attempt batch (world out, slept out) = (r, w, sl)"
    by (cases "analyze_batch_with_openai attempt batch (world out, slept out)")
  show ?case
  proof (cases r)
    case (Inl x)
    with Cons.prems ib a show ?thesis by (simp add: report_failure_raises)
  next
    case (Inr rs)
    with Cons.prems ib a
    have "fst (extract_loop attempt bs ibs (analyses @ rs) (out\<lparr>world := w, slept := sl\<rparr>)) = Inl e"
      by simp
    then show ?thesis by (rule Cons.IH)
  qed
qed

lemma extract_loop_echo:
  "extract_loop (\<lambda>batch w. (Inr batch, w @ [batch])) bs ibs analyses out =
     (Inr (analyses @ concat (map snd ibs)), out\<lparr>world := world out @ map snd ibs\<rparr>)"
proof (induction ibs arbitrary: analyses out)
  case Nil
  show ?case by simp
next
  case (Cons ib ibs)
  obtain i batch where ib: "ib = (i, batch)" by (cases ib)
  have "analyze_batch_with_openai (\<lambda>batch w. (Inr batch, w @ [batch])) batch (world out, slept out)
          = (Inr batch, world out @ [batch], slept out)"
    by (rule analyze_first_success) simp
  then show ?case by (simp add: ib Cons.IH)
qed

text \<open>
  Claim C3 asks that a batch whose extraction call raises on all 6 attempts be reported
  on the error stream and skipped, the later batches being processed as usual. The loop
  retries as described (it sleeps 1, 2, 4, 8 and 16 time units) and enters its handler,
  but the handler names \<^verbatim>\<open>sys\<close>, which the module never imports: it raises \<^verbatim>\<open>NameError\<close>
  before printing, and the exception ends the run. Here the service fails on every call
  for the first of two batches: the run ends with \<^verbatim>\<open>NameError\<close> after the six calls for
  that batch, nothing is on the error stream, and the second batch is never sent.
\<close>

theorem failed_batch_raises_name_error:
  "run_extraction
     (\<lambda>batch w. (if 7 \<in> set batch then Inl (ServiceError ''503'') else Inr batch, Suc w))
     2 [7, 8, 9 :: nat] (0 :: nat)
   = (Inl NameError, \<lparr>world = 6, slept = [1, 2, 4, 8, 16], stderr = []\<rparr>)"
proof -
  let ?f = "\<lambda>(batch :: nat list) (w :: nat).
              (if 7 \<in> set batch then Inl (ServiceError ''503'') else (Inr batch :: error + nat list), Suc w)"
  have s: "batch_slices 2 [7, 8, 9 :: nat] = Inr [(0, [7, 8]), (2, [9])]"
    by (simp add: batch_slices_def py_range_def range_len_def py_slice_def slice_index_def
        upt_rec)
  let ?o = "start (0 :: nat) :: nat outside"
  have h: "exhaust (?f [7, 8]) 6 (world ?o) = Some (ServiceError ''503'', 6)"
    by (simp add: start_def eval_nat_numeral)
  have e: "extract_loop ?f 2 [(0, [7, 8]), (2, [9])] [] ?o =
             (Inl NameError, ?o\<lparr>world := 6, slept := slept ?o @ [1, 2, 4, 8, 16]\<rparr>)"
    by (rule failed_batch_ends_run [where attempt = ?f and batch = "[7, 8]", OF h])
  have "run_extraction ?f 2 [7, 8, 9] 0 = extract_loop ?f 2 [(0, [7, 8]), (2, [9])] [] ?o"
    by (simp add: run_extraction_def effective_batch_size_def s del: extract_loop.simps)
  also note e
  finally show ?thesis by (simp add: start_def)
qed

text \<open>
  Claim C10. For every integer \<open>batch_size\<close>, zero and negative values included, the
  effective batch size is \<open>max 1 batch_size\<close>. With it the batching loop of a run makes
  \<open>\<lceil>L / max 1 batch_size\<rceil>\<close> iterations over slices that concatenate to the input: a
  service that records each batch it is sent and echoes it back has seen exactly these
  slices, in order, when the run returns, and the run returns the whole input. Whatever
  the service does, the run never raises the \<^verbatim>\<open>ValueError\<close> that \<^verbatim>\<open>range\<close> raises on a
  zero step.
\<close>

theorem effective_batch_size_total:
  "effective_batch_size batch_size = max 1 batch_size
   \<and> (\<exists>bss. batches (effective_batch_size batch_size) rows = Inr bss
          \<and> int (length bss) = \<lceil>real (length rows) / real_of_int (max 1 batch_size)\<rceil>
          \<and> concat bss = rows
          \<and> run_extraction (\<lambda>batch w. (Inr batch, w @ [batch])) batch_size rows []
              = (Inr rows, \<lparr>world = bss, slept = [], stderr = []\<rparr>))
   \<and> fst (run_extraction attempt batch_size rows w) \<noteq> Inl ValueError"
proof -
  have pos: "0 < max 1 batch_size" by simp
  have one: "1 \<le> max 1 batch_size" by simp
  from batches_shape [OF one, of rows] obtain bss where
    b: "batches (max 1 batch_size) rows = Inr bss"
    and l: "int (length bss) = \<lceil>real (length rows) / real_of_int (max 1 batch_size)\<rceil>"
    and c: "concat bss = rows"
    by blast
  obtain ibs where ibs: "batch_slices (max 1 batch_size) rows = Inr ibs"
    using batch_slices_pos [OF pos, of rows] by blast
  with b have m: "map snd ibs = bss" by (simp add: batches_def)
  have "run_extraction (\<lambda>batch w. (Inr batch, w @ [batch])) batch_size rows []
          = extract_loop (\<lambda>batch w. (Inr batch, w @ [batch])) (max 1 batch_size) ibs [] (start [])"
    by (simp add: run_extraction_def effective_batch_size_def ibs)
  then have echo: "run_extraction (\<lambda>batch w. (Inr batch, w @ [batch])) batch_size rows []
                = (Inr rows, \<lparr>world = bss, slept = [], stderr = []\<rparr>)"
    by (simp add: extract_loop_echo m c start_def)
  have run: "run_extraction attempt batch_size rows w =
               extract_loop attempt (max 1 batch_size) ibs [] (start w)"
    by (simp add: run_extraction_def effective_batch_size_def ibs)
  have nv: "fst (run_extraction attempt batch_size rows w) \<noteq> Inl ValueError"
  proof
    assume "fst (run_extraction attempt batch_size rows w) = Inl ValueError"
    then have "fst (extract_loop attempt (max 1 batch_size) ibs [] (start w)) = Inl ValueError"
      by (simp add: run)
    then have "ValueError = NameError" by (rule extract_loop_error)
    then show False by simp
  qed
  from b l c echo nv show ?thesis
    by (auto simp: effective_batch_size_def)
qed

section \<open>Properties of aggregation\<close>

lemma map_of_dict_set: "map_of (dict_set k v kvs) = (map_of kvs)(k \<mapsto> v)"
  by (induction kvs) (auto simp: fun_eq_iff)

lemma keys_dict_set:
  "map fst (dict_set k v kvs) = (if k \<in> fst ` set kvs then map fst kvs else map fst kvs @ [k])"
  by (induction kvs) force+

lemma distinct_dict_set: "distinct (map fst kvs) \<Longrightarrow> distinct (map fst (dict_set k v kvs))"
  by (simp add: keys_dict_set)

lemma add_to_bucket_merge: "add_to_bucket r b = Inr b' \<Longrightarrow> b' = merge b r"
  by (auto simp: add_to_bucket_def merge_def severity_of_def audience_of_def tags_of_def
      links_of_def example_of_def Let_def split: sum.splits if_splits)

lemma add_to_bucket_any:
  "add_to_bucket r b = Inr b' \<Longrightarrow> \<exists>c'. add_to_bucket r c = Inr c'"
  by (auto simp: add_to_bucket_def Let_def split: sum.splits if_splits)

lemma add_to_bucket_error:
  "add_to_bucket r b = Inl e \<Longrightarrow> add_to_bucket r c = Inl e"
  by (auto simp: add_to_bucket_def Let_def split: sum.splits if_splits)

lemma aggregate_loop_step:
  "aggregate_loop bs (r # rs) =
     (case bucket_key r of
        Inl e \<Rightarrow> Inl e
      | Inr key \<Rightarrow>
          if key = [] then aggregate_loop bs rs
          else (case add_to_bucket r (lookup_or_empty bs key) of
                  Inl e \<Rightarrow> Inl e
                | Inr b' \<Rightarrow> aggregate_loop (dict_set key b' bs) rs))"
  by (simp add: lookup_or_empty_def split: sum.splits)

declare aggregate_loop.simps(2) [simp del]

lemma aggregate_loop_lookup:
  "aggregate_loop bs rs = Inr bs' \<Longrightarrow>
   map_of bs' k =
     (if k = [] \<or> members k rs = [] then map_of bs k
      else Some (foldl merge (lookup_or_empty bs k) (members k rs)))"
proof (induction rs arbitrary: bs)
  case Nil
  then show ?case by (simp add: members_def)
next
  case (Cons r rs)
  from Cons.prems obtain key where key: "bucket_key r = Inr key"
    by (cases "bucket_key r") (simp_all add: aggregate_loop_step)
  show ?case
  proof (cases "key = []")
    case True
    with Cons.prems key have "aggregate_loop bs rs = Inr bs'"
      by (simp add: aggregate_loop_step)
    from Cons.IH [OF this] True key show ?thesis
      by (auto simp: members_def)
  next
    case False
    with Cons.prems key obtain b' where
      b': "add_to_bucket r (lookup_or_empty bs key) = Inr b'"
      and l: "aggregate_loop (dict_set key b' bs) rs = Inr bs'"
      by (cases "add_to_bucket r (lookup_or_empty bs key)") (simp_all add: aggregate_loop_step)
    have m: "b' = merge (lookup_or_empty bs key) r" using b' by (rule add_to_bucket_merge)
    show ?thesis
    proof (cases "k = key")
      case True
      with Cons.IH [OF l] key m False show ?thesis
        by (simp add: members_def map_of_dict_set lookup_or_empty_def)
    next
      case neq: False
      with Cons.IH [OF l] key show ?thesis
        by (simp add: members_def map_of_dict_set lookup_or_empty_def)
    qed
  qed
qed

lemma merge_fields:
  "count (merge b r) = count b + 1"
  "severity_sum (merge b r) = severity_sum b + severity_of r"
  "audiences (merge b r) = insert (audience_of r) (audiences b)"
  "tags (merge b r) = tags b \<union> tags_of r"
  "links (merge b r) = links b \<union> links_of r"
  "examples (merge b r) =
     (if length (examples b) < 5 then examples b @ [example_of r] else examples b)"
  by (simp_all add: merge_def)

lemma foldl_merge_count: "count (foldl merge b ms) = count b + length ms"
  by (induction ms arbitrary: b) (simp_all add: merge_fields)

lemma foldl_merge_severity:
  "severity_sum (foldl merge b ms) = severity_sum b + sum_list (map severity_of ms)"
  by (induction ms arbitrary: b) (simp_all add: merge_fields)

lemma foldl_merge_audiences:
  "audiences (foldl merge b ms) = audiences b \<union> set (map audience_of ms)"
  by (induction ms arbitrary: b) (simp_all add: merge_fields)

lemma foldl_merge_tags:
  "tags (foldl merge b ms) = tags b \<union> \<Union> (set (map tags_of ms))"
  by (induction ms arbitrary: b) (auto simp: merge_fields)

lemma foldl_merge_links:
  "links (foldl merge b ms) = links b \<union> \<Union> (set (map links_of ms))"
  by (induction ms arbitrary: b) (auto simp: merge_fields)

lemma foldl_merge_examples:
  "examples (foldl merge b ms) =
     examples b @ take (5 - length (examples b)) (map example_of ms)"
proof (induction ms arbitrary: b)
  case Nil
  show ?case by simp
next
  case (Cons r ms)
  show ?case
  proof (cases "length (examples b) < 5")
    case True
    then have "5 - length (examples b) = Suc (5 - Suc (length (examples b)))" by simp
    with True show ?thesis by (simp add: Cons.IH merge_fields)
  next
    case False
    then show ?thesis by (simp add: Cons.IH merge_fields)
  qed
qed

lemma foldl_merge_empty: "foldl merge empty_bucket ms = bucket_of ms"
  by (rule bucket.equality)
    (simp_all add: foldl_merge_count foldl_merge_severity foldl_merge_audiences
      foldl_merge_tags foldl_merge_links foldl_merge_examples bucket_of_def empty_bucket_def)

lemma aggregate_lookup:
  assumes "aggregate rs = Inr bs"
  shows "map_of bs k =
           (if k \<noteq> [] \<and> members k rs \<noteq> [] then Some (bucket_of (members k rs)) else None)"
  using aggregate_loop_lookup [of "[]" rs bs k] assms
  by (simp add: aggregate_def lookup_or_empty_def foldl_merge_empty)

lemma aggregate_loop_distinct:
  "aggregate_loop bs rs = Inr bs' \<Longrightarrow> distinct (map fst bs) \<Longrightarrow> distinct (map fst bs')"
proof (induction rs arbitrary: bs)
  case Nil
  then show ?case by simp
next
  case (Cons r rs)
  then show ?case
    by (auto simp: aggregate_loop_step distinct_dict_set split: sum.splits if_splits)
qed

lemma aggregate_distinct: "aggregate rs = Inr bs \<Longrightarrow> distinct (map fst bs)"
  using aggregate_loop_distinct [of "[]" rs bs] by (simp add: aggregate_def)

lemma accepted_step:
  "accepted r \<longleftrightarrow>
     (\<exists>key. bucket_key r = Inr key \<and> (key = [] \<or> (\<exists>b'. add_to_bucket r b = Inr b')))"
proof (cases "bucket_key r")
  case (Inl e)
  then show ?thesis by (simp add: accepted_def)
next
  case (Inr key)
  show ?thesis
  proof (cases "add_to_bucket r empty_bucket")
    case (Inl e)
    then have "add_to_bucket r b = Inl e" by (rule add_to_bucket_error)
    with Inl Inr show ?thesis by (simp add: accepted_def)
  next
    case r: (Inr c)
    then obtain b' where "add_to_bucket r b = Inr b'" using add_to_bucket_any by blast
    with r Inr show ?thesis by (simp add: accepted_def)
  qed
qed

lemma aggregate_loop_succeeds:
  "(\<exists>bs'. aggregate_loop bs rs = Inr bs') \<longleftrightarrow> list_all accepted rs"
proof (induction rs arbitrary: bs)
  case Nil
  show ?case by simp
next
  case (Cons r rs)
  show ?case
  proof (cases "bucket_key r")
    case (Inl e)
    then show ?thesis by (simp add: accepted_def aggregate_loop_step)
  next
    case (Inr key)
    show ?thesis
    proof (cases "key = []")
      case True
      with Inr Cons.IH [of bs] show ?thesis by (simp add: accepted_def aggregate_loop_step)
    next
      case False
      show ?thesis
      proof (cases "add_to_bucket r (lookup_or_empty bs key)")
        case (Inl e)
        with Inr False accepted_step [of r "lookup_or_empty bs key"] show ?thesis
          by (simp add: aggregate_loop_step)
      next
        case r: (Inr b')
        with Inr False accepted_step [of r "lookup_or_empty bs key"]
          Cons.IH [of "dict_set key b' bs"] show ?thesis
          by (simp add: aggregate_loop_step)
      qed
    qed
  qed
qed

lemma aggregate_succeeds: "(\<exists>bs. aggregate rs = Inr bs) \<longleftrightarrow> list_all accepted rs"
  using aggregate_loop_succeeds [of "[]" rs] by (simp add: aggregate_def)





lemma aggregate_keys:
  assumes "aggregate rs = Inr bs"
  shows "fst ` set bs = {k. k \<noteq> [] \<and> members k rs \<noteq> []}"
proof -
  have "fst ` set bs = dom (map_of bs)" by (simp add: dom_map_of_conv_image_fst)
  also have "\<dots> = {k. k \<noteq> [] \<and> members k rs \<noteq> []}"
    by (auto simp: aggregate_lookup [OF assms] dom_def)
  finally show ?thesis .
qed




lemma members_append: "members k (rs @ rs') = members k rs @ members k rs'"
  by (simp add: members_def)

text \<open>
  Claim C6, as the code has it. The examples of a bucket are the (subreddit, title) pairs
  of the first five results that contribute to the bucket, in encounter order, a repeated
  pair being kept as often as it occurs among them. Whatever results follow, the examples
  already present stay at the front, and once five are present the list no longer
  changes.
\<close>

theorem examples_first_five:
  assumes "aggregate rs = Inr bs" and "map_of bs k = Some b"
  shows "examples b = take 5 (map example_of (members k rs))
       \<and> (\<forall>rs' bs' b'. aggregate (rs @ rs') = Inr bs' \<and> map_of bs' k = Some b' \<longrightarrow>
             take (length (examples b)) (examples b') = examples b
             \<and> (length (examples b) = 5 \<longrightarrow> examples b' = examples b))"
proof -
  from assms have k: "k \<noteq> []" "members k rs \<noteq> []" and b: "b = bucket_of (members k rs)"
    by (auto simp: aggregate_lookup [OF assms(1)] split: if_splits)
  have e: "examples b = take 5 (map example_of (members k rs))"
    by (simp add: b bucket_of_def)
  have "take (length (examples b)) (examples b') = examples b
        \<and> (length (examples b) = 5 \<longrightarrow> examples b' = examples b)"
    if a: "aggregate (rs @ rs') = Inr bs'" and m: "map_of bs' k = Some b'" for rs' bs' b'
  proof -
    from m have "b' = bucket_of (members k (rs @ rs'))"
      by (auto simp: aggregate_lookup [OF a] split: if_splits)
    then have e': "examples b' =
        take 5 (map example_of (members k rs) @ map example_of (members k rs'))"
      by (simp add: bucket_of_def members_append)
    let ?xs = "map example_of (members k rs)"
    let ?ys = "map example_of (members k rs')"
    have "take (length (take 5 ?xs)) (take 5 (?xs @ ?ys)) = take 5 ?xs"
      by (simp add: min_def take_all)
    moreover have "length (take 5 ?xs) = 5 \<longrightarrow> take 5 (?xs @ ?ys) = take 5 ?xs"
      by (simp add: min_def)
    ultimately show ?thesis by (simp only: e e')
  qed
  with e show ?thesis by blast
qed

theorem examples_first_five_witness:
  "aggregate [sample_crash, sample_crash] =
     Inr [(''lms crashes'',
           \<lparr>count = 2,
            examples = [(JStr ''edtech'', JStr ''App crashes''),
                        (JStr ''edtech'', JStr ''App crashes'')],
            severity_sum = 8, audiences = {JStr []},
            links = {JStr ''https://example.org/a''}, tags = {}\<rparr>)]
   \<and> [(JStr ''edtech'', JStr ''App crashes''), (JStr ''edtech'', JStr ''App crashes'')] =
       take 5 (map example_of (members ''lms crashes'' [sample_crash, sample_crash]))"
proof -
  let ?b = "\<lparr>count = 2,
            examples = [(JStr ''edtech'', JStr ''App crashes''),
                        (JStr ''edtech'', JStr ''App crashes'')],
            severity_sum = 8, audiences = {JStr []},
            links = {JStr ''https://example.org/a''}, tags = {}\<rparr>"
  have h: "aggregate [sample_crash, sample_crash] = Inr [(''lms crashes'', ?b)]"
    by code_simp
  have m: "map_of [(''lms crashes'', ?b)] ''lms crashes'' = Some ?b" by simp
  from examples_first_five [OF h m] h show ?thesis by simp
qed

text \<open>
  Claim C6 as stated speaks of distinct pairs. Two results with the same key, subreddit
  and title leave the same pair twice in the examples, where the list of distinct pairs
  has it once.
\<close>

theorem examples_keep_duplicates:
  "aggregate [sample_crash, sample_crash] =
     Inr [(''lms crashes'',
           \<lparr>count = 2,
            examples = [(JStr ''edtech'', JStr ''App crashes''),
                        (JStr ''edtech'', JStr ''App crashes'')],
            severity_sum = 8, audiences = {JStr []},
            links = {JStr ''https://example.org/a''}, tags = {}\<rparr>)]
   \<and> distinct_examples (members ''lms crashes'' [sample_crash, sample_crash]) =
       [(JStr ''edtech'', JStr ''App crashes'')]"
  by code_simp

text \<open>
  Claim C8. If aggregation succeeds on a sequence of results, it succeeds on every
  permutation of it, with the same set of keys, and under every key the two buckets
  agree on count, severity sum (hence on the average severity computed from the two),
  audiences, tags and links. The examples are in both cases the pairs of the first five
  contributing results in the order of the respective input, so they differ only by
  which results come first.
\<close>

theorem permutation_invariance:
  assumes "mset rs' = mset rs" and "aggregate rs = Inr bs"
  shows "\<exists>bs'. aggregate rs' = Inr bs'
           \<and> set (map fst bs') = set (map fst bs)
           \<and> (\<forall>k b b'. map_of bs k = Some b \<and> map_of bs' k = Some b' \<longrightarrow>
                 count b' = count b \<and> severity_sum b' = severity_sum b
                 \<and> audiences b' = audiences b \<and> tags b' = tags b \<and> links b' = links b
                 \<and> examples b = take 5 (map example_of (members k rs))
                 \<and> examples b' = take 5 (map example_of (members k rs')))"
proof -
  have s: "set rs' = set rs" using assms(1) by (rule mset_eq_setD)
  have "list_all accepted rs" using assms(2) aggregate_succeeds by blast
  then have "list_all accepted rs'" using s by (simp add: list_all_iff)
  then obtain bs' where a': "aggregate rs' = Inr bs'" using aggregate_succeeds by blast
  have m: "mset (members k rs') = mset (members k rs)" for k
    by (simp add: members_def assms(1))
  have ne: "members k rs' = [] \<longleftrightarrow> members k rs = []" for k
    using m [of k] by (metis mset_zero_iff)
  have keys: "set (map fst bs') = set (map fst bs)"
    using aggregate_keys [OF a'] aggregate_keys [OF assms(2)] by (simp add: ne)
  have fields: "count b' = count b \<and> severity_sum b' = severity_sum b
         \<and> audiences b' = audiences b \<and> tags b' = tags b \<and> links b' = links b
         \<and> examples b = take 5 (map example_of (members k rs))
         \<and> examples b' = take 5 (map example_of (members k rs'))"
    if b: "map_of bs k = Some b" and b': "map_of bs' k = Some b'" for k b b'
  proof -
    from b have eb: "b = bucket_of (members k rs)"
      by (auto simp: aggregate_lookup [OF assms(2)] split: if_splits)
    from b' have eb': "b' = bucket_of (members k rs')"
      by (auto simp: aggregate_lookup [OF a'] split: if_splits)
    have len: "length (members k rs') = length (members k rs)"
      using m [of k] by (metis size_mset)
    have sm: "sum_list (map severity_of (members k rs')) = sum_list (map severity_of (members k rs))"
      using m [of k] by (metis mset_map sum_mset_sum_list)
    have st: "set (members k rs') = set (members k rs)"
      using m [of k] by (rule mset_eq_setD)
    show ?thesis
      by (simp add: eb eb' bucket_of_def len sm st)
  qed
  from a' keys fields show ?thesis by blast
qed

theorem permutation_invariance_witness:
  "mset [sample_crash_again, sample_blank, sample_crash] = mset [sample_crash, sample_blank, sample_crash_again]
   \<and> aggregate [sample_crash, sample_blank, sample_crash_again] =
     Inr [(''lms crashes'',
           \<lparr>count = 2,
            examples = [(JStr ''edtech'', JStr ''App crashes''),
                        (JStr ''Teachers'', JStr ''Gradebook down'')],
            severity_sum = 7, audiences = {JStr []},
            links = {JStr ''https://example.org/a''}, tags = {}\<rparr>)]
   \<and> (\<exists>bs'. aggregate [sample_crash_again, sample_blank, sample_crash] = Inr bs'
          \<and> set (map fst bs') = {''lms crashes''})"
proof -
  have p: "mset [sample_crash_again, sample_blank, sample_crash] =
           mset [sample_crash, sample_blank, sample_crash_again]"
    by (simp add: add_mset_commute)
  have h: "aggregate [sample_crash, sample_blank, sample_crash_again] =
     Inr [(''lms crashes'',
           \<lparr>count = 2,
            examples = [(JStr ''edtech'', JStr ''App crashes''),
                        (JStr ''Teachers'', JStr ''Gradebook down'')],
            severity_sum = 7, audiences = {JStr []},
            links = {JStr ''https://example.org/a''}, tags = {}\<rparr>)]"
    by code_simp
  from permutation_invariance [OF p h] obtain bs' where
    a: "aggregate [sample_crash_again, sample_blank, sample_crash] = Inr bs'"
    and k: "set (map fst bs') = set (map fst [(''lms crashes'',
           \<lparr>count = 2,
            examples = [(JStr ''edtech'', JStr ''App crashes''),
                        (JStr ''Teachers'', JStr ''Gradebook down'')],
            severity_sum = 7, audiences = {JStr []},
            links = {JStr ''https://example.org/a''}, tags = {}\<rparr>)])"
    by blast
  from k have "set (map fst bs') = {''lms crashes''}" by simp
  with a p h show ?thesis by blast
qed


section \<open>Properties of the aggregated table\<close>

lemma map_until_error_set:
  "map_until_error f xs = Inr ys \<Longrightarrow> y \<in> set ys \<Longrightarrow> \<exists>x \<in> set xs. f x = Inr y"
proof (induction xs arbitrary: ys)
  case Nil
  then show ?case by simp
next
  case (Cons x xs)
  then show ?case by (auto split: sum.splits)
qed

lemma aggregate_bucket_of:
  assumes "aggregate rs = Inr bs" and "(k, b) \<in> set bs"
  shows "members k rs \<noteq> [] \<and> b = bucket_of (members k rs)"
proof -
  have "distinct (map fst bs)" using assms(1) by (rule aggregate_distinct)
  with assms(2) have "map_of bs k = Some b" by simp
  then show ?thesis by (auto simp: aggregate_lookup [OF assms(1)] split: if_splits)
qed

lemma schema_only_fields:
  assumes "dom r \<subseteq> set schema_properties"
  shows "audience_of r = JStr []" and "tags_of r = {}"
proof -
  have "''target_audience'' \<notin> set schema_properties"
    and "''primary_topic_tags'' \<notin> set schema_properties"
    by (simp_all add: schema_properties_def)
  with assms have "r ''target_audience'' = None" and "r ''primary_topic_tags'' = None"
    by (auto simp: domIff)
  then show "audience_of r = JStr []" and "tags_of r = {}"
    by (simp_all add: audience_of_def tags_of_def get_default_def py_set_def)
qed

lemma join_sorted_empty: "join_sorted sep {} = Inr []"
  by (simp add: join_sorted_def)

lemma agg_row_of_cells:
  assumes "agg_row_of kb = Inr row"
  shows "avg_sev (snd kb) = Inr (avg_severity row)
       \<and> audiences_column (snd kb) = Inr (audiences_cell row)
       \<and> top_tags_column (snd kb) = Inr (top_tags row)
       \<and> example_titles_column (snd kb) = Inr (example_titles row)
       \<and> issue_key row = fst kb \<and> posts row = count (snd kb)"
proof (cases "avg_sev (snd kb)")
  case (Inl e)
  with assms show ?thesis by (simp add: agg_row_of_def)
next
  case a: (Inr a)
  show ?thesis
  proof (cases "audiences_column (snd kb)")
    case (Inl e)
    with assms a show ?thesis by (simp add: agg_row_of_def)
  next
    case au: (Inr au)
    show ?thesis
    proof (cases "top_tags_column (snd kb)")
      case (Inl e)
      with assms a au show ?thesis by (simp add: agg_row_of_def)
    next
      case tg: (Inr tg)
      show ?thesis
      proof (cases "example_titles_column (snd kb)")
        case (Inl e)
        with assms a au tg show ?thesis by (simp add: agg_row_of_def)
      next
        case (Inr ti)
        with assms a au tg show ?thesis by (auto simp: agg_row_of_def)
      qed
    qed
  qed
qed

text \<open>
  Claim C5. When every result carries only properties declared by the extraction schema
  (which has \<open>stakeholders\<close> but neither \<open>target_audience\<close> nor \<open>primary_topic_tags\<close>),
  every bucket has an empty set of tags and an audiences set holding just the empty
  string, the audiences and tags columns computed from it are empty strings, and so are
  these two cells in every row of the aggregated table.
\<close>

theorem schema_fields_leave_audiences_and_tags_empty:
  assumes "aggregate rs = Inr bs" and "\<forall>r \<in> set rs. dom r \<subseteq> set schema_properties"
  shows "(\<forall>kb \<in> set bs. tags (snd kb) = {} \<and> audiences (snd kb) = {JStr []}
            \<and> audiences_column (snd kb) = Inr [] \<and> top_tags_column (snd kb) = Inr [])
       \<and> (\<forall>rows. aggregated_rows bs = Inr rows \<longrightarrow>
            (\<forall>row \<in> set rows. audiences_cell row = [] \<and> top_tags row = []))"
proof -
  have cols: "tags (snd kb) = {} \<and> audiences (snd kb) = {JStr []}
        \<and> audiences_column (snd kb) = Inr [] \<and> top_tags_column (snd kb) = Inr []"
    if kb: "kb \<in> set bs" for kb
  proof -
    obtain k b where kb_eq: "kb = (k, b)" by (cases kb)
    let ?ms = "members k rs"
    from kb kb_eq have "(k, b) \<in> set bs" by simp
    from aggregate_bucket_of [OF assms(1) this] have ne: "?ms \<noteq> []" and b: "b = bucket_of ?ms"
      by simp_all
    have sub: "r \<in> set rs" if "r \<in> set ?ms" for r
      using that by (simp add: members_def)
    have au: "audience_of r = JStr []" if "r \<in> set ?ms" for r
      using assms(2) sub [OF that] by (intro schema_only_fields(1)) simp
    have tg: "tags_of r = {}" if "r \<in> set ?ms" for r
      using assms(2) sub [OF that] by (intro schema_only_fields(2)) simp
    have "\<Union> (set (map tags_of ?ms)) = {}" using tg by simp
    then have t: "tags b = {}" by (simp only: b bucket_of_def bucket.simps)
    have "set (map audience_of ?ms) = {JStr []}" using au ne by (cases ?ms) auto
    then have a: "audiences b = {JStr []}" by (simp only: b bucket_of_def bucket.simps)
    have "Set.filter truthy (audiences b) = {}" by (auto simp: a)
    then have ac: "audiences_column b = Inr []"
      by (simp only: audiences_column_def join_sorted_empty)
    have tc: "top_tags_column b = Inr []"
      by (simp add: top_tags_column_def t join_sorted_empty)
    from t a ac tc show ?thesis by (simp only: kb_eq snd_conv simp_thms)
  qed
  have cells: "audiences_cell row = [] \<and> top_tags row = []"
    if r: "aggregated_rows bs = Inr rows" and m: "row \<in> set rows" for rows row
  proof -
    from map_until_error_set [OF r [unfolded aggregated_rows_def] m]
    obtain kb where kb: "kb \<in> set (by_count_desc bs)" and row: "agg_row_of kb = Inr row"
      by blast
    from kb have "kb \<in> set bs" by (simp add: by_count_desc_def)
    from cols [OF this]
    have "audiences_column (snd kb) = Inr []" and "top_tags_column (snd kb) = Inr []"
      by simp_all
    with agg_row_of_cells [OF row] show ?thesis by simp
  qed
  show ?thesis
  proof (intro conjI ballI allI impI)
    fix kb assume "kb \<in> set bs"
    from cols [OF this] show "tags (snd kb) = {}" and "audiences (snd kb) = {JStr []}"
      and "audiences_column (snd kb) = Inr []" and "top_tags_column (snd kb) = Inr []"
      by simp_all
  next
    fix rows row assume "aggregated_rows bs = Inr rows" and "row \<in> set rows"
    from cells [OF this] show "audiences_cell row = []" and "top_tags row = []"
      by simp_all
  qed
qed

theorem schema_fields_leave_audiences_and_tags_empty_witness:
  "aggregate [sample_crash, sample_blank, sample_crash_again] =
     Inr [(''lms crashes'',
           \<lparr>count = 2,
            examples = [(JStr ''edtech'', JStr ''App crashes''),
                        (JStr ''Teachers'', JStr ''Gradebook down'')],
            severity_sum = 7, audiences = {JStr []},
            links = {JStr ''https://example.org/a''}, tags = {}\<rparr>)]
   \<and> dom sample_crash \<subseteq> set schema_properties
   \<and> dom sample_blank \<subseteq> set schema_properties
   \<and> dom sample_crash_again \<subseteq> set schema_properties
   \<and> audiences_column \<lparr>count = 2,
            examples = [(JStr ''edtech'', JStr ''App crashes''),
                        (JStr ''Teachers'', JStr ''Gradebook down'')],
            severity_sum = 7, audiences = {JStr []},
            links = {JStr ''https://example.org/a''}, tags = {}\<rparr> = Inr []
   \<and> top_tags_column \<lparr>count = 2,
            examples = [(JStr ''edtech'', JStr ''App crashes''),
                        (JStr ''Teachers'', JStr ''Gradebook down'')],
            severity_sum = 7, audiences = {JStr []},
            links = {JStr ''https://example.org/a''}, tags = {}\<rparr> = Inr []"
proof -
  let ?b = "\<lparr>count = 2,
            examples = [(JStr ''edtech'', JStr ''App crashes''),
                        (JStr ''Teachers'', JStr ''Gradebook down'')],
            severity_sum = 7, audiences = {JStr []},
            links = {JStr ''https://example.org/a''}, tags = {}\<rparr>"
  have h: "aggregate [sample_crash, sample_blank, sample_crash_again] =
             Inr [(''lms crashes'', ?b)]"
    by code_simp
  have d: "\<forall>r \<in> set [sample_crash, sample_blank, sample_crash_again].
             dom r \<subseteq> set schema_properties"
    by (simp add: sample_crash_def sample_blank_def sample_crash_again_def
        schema_properties_def)
  from schema_fields_leave_audiences_and_tags_empty [OF h d]
  have "audiences_column ?b = Inr []" and "top_tags_column ?b = Inr []" by simp_all
  moreover from d have "dom sample_crash \<subseteq> set schema_properties"
    and "dom sample_blank \<subseteq> set schema_properties"
    and "dom sample_crash_again \<subseteq> set schema_properties" by simp_all
  ultimately show ?thesis using h by blast
qed




section \<open>Properties of the average severity\<close>

lemma pow2_powi: "pow2 e = 2 powi e"
  by (simp add: pow2_def power_int_def field_simps)

lemma pow2_pos: "0 < pow2 e"
  by (simp add: pow2_def)

lemma round_half_even_error: "\<bar>of_int (round_half_even x) - x\<bar> \<le> 1 / 2"
proof -
  define f where "f = \<lfloor>x\<rfloor>"
  have f: "of_int f \<le> x" "x < of_int f + 1" unfolding f_def by linarith+
  have "round_half_even x =
          (if x - of_int f < 1 / 2 then f
           else if 1 / 2 < x - of_int f then f + 1
           else if even f then f else f + 1)"
    by (simp add: round_half_even_def f_def Let_def)
  with f show ?thesis by (auto simp: abs_if)
qed

lemma ilog2_le:
  assumes "0 < q"
  shows "pow2 (ilog2 q) \<le> q"
proof -
  obtain a b where ab: "quotient_of q = (a, b)" by (cases "quotient_of q")
  then have q: "q = of_int a / of_int b" and b: "0 < b"
    by (simp_all add: quotient_of_div quotient_of_denom_pos)
  with assms have a: "0 < a" by (simp add: zero_less_divide_iff)
  define A where "A = bitlen a - 1"
  define B where "B = bitlen b"
  have A0: "0 \<le> A" using a bitlen_bounds [OF a] unfolding A_def
    by (metis bitlen_eq_zero_iff bitlen_nonneg diff_ge_0_iff_ge linorder_not_less zless_imp_add1_zle zero_less_iff_neq_zero add.commute add_0 less_le)
  have B0: "0 \<le> B" by (simp add: B_def bitlen_nonneg)
  have la: "(2::rat) ^ nat A \<le> of_int a"
  proof -
    have "(2::int) ^ nat A \<le> a" using bitlen_bounds [OF a] by (simp add: A_def)
    then have "of_int ((2::int) ^ nat A) \<le> (of_int a :: rat)" by (simp only: of_int_le_iff)
    then show ?thesis by simp
  qed
  have ub: "of_int b \<le> (2::rat) ^ nat B"
  proof -
    have "b \<le> (2::int) ^ nat B" using bitlen_bounds [OF b] by (simp add: B_def)
    then have "(of_int b :: rat) \<le> of_int ((2::int) ^ nat B)" by (simp only: of_int_le_iff)
    then show ?thesis by simp
  qed
  have "(2::rat) powi (A - B) = 2 powi A / 2 powi B" by (simp add: power_int_diff)
  moreover have "(2::rat) powi A = 2 ^ nat A" using A0 by (simp add: power_int_def)
  moreover have "(2::rat) powi B = 2 ^ nat B" using B0 by (simp add: power_int_def)
  ultimately have "pow2 (A - B) = 2 ^ nat A / 2 ^ nat B"
    by (simp only: pow2_powi)
  also have "\<dots> \<le> of_int a / of_int b"
    using la ub b a by (intro frac_le) simp_all
  finally have low: "pow2 (A - B) \<le> q" by (simp add: q)
  show ?thesis
  proof (cases "pow2 (bitlen a - bitlen b) \<le> q")
    case True
    then show ?thesis by (simp add: ilog2_def ab)
  next
    case False
    moreover have "bitlen a - bitlen b - 1 = A - B" by (simp add: A_def B_def)
    ultimately show ?thesis using low by (simp add: ilog2_def ab)
  qed
qed


lemma pow2_add: "pow2 (a + b) = pow2 a * pow2 b"
  by (simp add: pow2_powi power_int_add)

lemma pow2_pred: "pow2 (e - 1) = pow2 e / 2"
  by (simp add: pow2_powi power_int_diff)

lemma pow2_mono: "a \<le> b \<Longrightarrow> pow2 a \<le> pow2 b"
  by (simp add: pow2_powi power_int_increasing)

lemma to_double_error:
  "\<bar>to_double q - q\<bar> \<le> max (\<bar>q\<bar> * pow2 (- 53)) (pow2 (- 1075))"
proof (cases "q = 0")
  case True
  have "0 \<le> pow2 (- 1075)" using pow2_pos [of "- 1075"] by simp
  then show ?thesis using True by (simp add: to_double_def le_max_iff_disj)
next
  case False
  define e where "e = max (ilog2 \<bar>q\<bar> - 52) (- 1074)"
  have td: "to_double q = of_int (round_half_even (q / pow2 e)) * pow2 e"
    using False by (simp add: to_double_def e_def Let_def)
  have p: "0 < pow2 e" by (rule pow2_pos)
  have "to_double q - q = (of_int (round_half_even (q / pow2 e)) - q / pow2 e) * pow2 e"
    using p by (simp add: td field_simps)
  then have "\<bar>to_double q - q\<bar> = \<bar>of_int (round_half_even (q / pow2 e)) - q / pow2 e\<bar> * pow2 e"
    using p by (simp add: abs_mult)
  also have "\<dots> \<le> (1 / 2) * pow2 e"
    using p round_half_even_error [of "q / pow2 e"] by (intro mult_right_mono) simp_all
  also have "\<dots> = pow2 (e - 1)" by (simp add: pow2_pred)
  finally have err: "\<bar>to_double q - q\<bar> \<le> pow2 (e - 1)" .
  show ?thesis
  proof (cases "- 1074 \<le> ilog2 \<bar>q\<bar> - 52")
    case True
    then have "e - 1 = ilog2 \<bar>q\<bar> + (- 53)" by (simp add: e_def)
    then have "pow2 (e - 1) = pow2 (ilog2 \<bar>q\<bar>) * pow2 (- 53)"
      by (simp only: pow2_add)
    also have "\<dots> \<le> \<bar>q\<bar> * pow2 (- 53)"
      using ilog2_le [of "\<bar>q\<bar>"] False pow2_pos [of "- 53"]
      by (intro mult_right_mono) simp_all
    finally have "\<bar>to_double q - q\<bar> \<le> \<bar>q\<bar> * pow2 (- 53)" using err by simp
    then show ?thesis by (rule max.coboundedI1)
  next
    case c: False
    then have "e - 1 = - 1075" by (simp add: e_def)
    with err have "\<bar>to_double q - q\<bar> \<le> pow2 (- 1075)" by simp
    then show ?thesis by (rule max.coboundedI2)
  qed
qed

lemma round_half_even_of_int: "round_half_even (of_int n) = n"
  by (simp add: round_half_even_def)

lemma to_double_small_error:
  assumes "0 < c" and "200 * \<bar>s\<bar> < 2 ^ 53" and "200 * c < 2 ^ 53"
  shows "\<bar>to_double (of_int s / of_int c) - of_int s / of_int c\<bar> < 1 / (200 * of_int c)"
proof -
  let ?q = "of_int s / of_int c :: rat"
  have c: "(0::rat) < of_int c" using assms(1) by simp
  have p53: "pow2 (- 53) = 1 / 2 ^ 53" by (simp add: pow2_def)
  have "200 * \<bar>of_int s :: rat\<bar> < 2 ^ 53"
  proof -
    have "(of_int (200 * \<bar>s\<bar>) :: rat) < of_int (2 ^ 53)" using assms(2) by (simp only: of_int_less_iff)
    then show ?thesis by simp
  qed
  then have "\<bar>of_int s :: rat\<bar> * (1 / 2 ^ 53) < 1 / 200" by simp
  then have "\<bar>of_int s :: rat\<bar> * (1 / 2 ^ 53) / of_int c < 1 / 200 / of_int c"
    using c by (simp only: divide_strict_right_mono)
  then have b1: "\<bar>?q\<bar> * pow2 (- 53) < 1 / (200 * of_int c)"
    using c by (simp add: p53 abs_divide field_simps)
  have "200 * (of_int c :: rat) < 2 ^ 53"
  proof -
    have "(of_int (200 * c) :: rat) < of_int (2 ^ 53)" using assms(3) by (simp only: of_int_less_iff)
    then show ?thesis by simp
  qed
  then have "1 / 2 ^ 53 < 1 / (200 * (of_int c :: rat))"
    using c by (intro divide_strict_left_mono) simp_all
  moreover have "pow2 (- 1075) \<le> pow2 (- 53)" by (rule pow2_mono) simp
  ultimately have b2: "pow2 (- 1075) < 1 / (200 * of_int c)" by (simp add: p53)
  from b1 b2 have "max (\<bar>?q\<bar> * pow2 (- 53)) (pow2 (- 1075)) < 1 / (200 * of_int c)"
    by (simp only: max_less_iff_conj simp_thms)
  with to_double_error [of ?q] show ?thesis by (rule le_less_trans)
qed


lemma round_to_hundredths:
  assumes "0 < c" and "200 * \<bar>s\<bar> < 2 ^ 53" and "200 * c < 2 ^ 53"
  shows "\<bar>of_int (round_half_even (to_double (of_int s / of_int c) * 100)) / 100
           - of_int s / of_int c\<bar> \<le> (1 / 200 :: rat)"
proof -
  let ?q = "of_int s / of_int c :: rat"
  let ?x = "to_double ?q"
  define n where "n = round_half_even (?x * 100)"
  define k where "k = 2 * c * n - 200 * s"
  have c: "(0::rat) < of_int c" using assms(1) by simp
  have kq: "of_int k = 2 * of_int c * (of_int n - 100 * ?q)"
    using c by (simp add: k_def field_simps)
  have e1: "\<bar>of_int n - ?x * 100\<bar> \<le> 1 / 2"
    unfolding n_def by (rule round_half_even_error)
  have e2: "\<bar>?x - ?q\<bar> < 1 / (200 * of_int c)"
    using assms by (rule to_double_small_error)
  have "\<bar>of_int n - 100 * ?q\<bar> \<le> \<bar>of_int n - ?x * 100\<bar> + 100 * \<bar>?x - ?q\<bar>"
    by (simp add: abs_if split: if_splits)
  also have "\<dots> < 1 / 2 + 100 * (1 / (200 * of_int c))"
    using e1 e2 by (intro add_le_less_mono mult_strict_left_mono) simp_all
  finally have lt: "\<bar>of_int n - 100 * ?q\<bar> < 1 / 2 + 1 / (2 * of_int c)" by simp
  have "\<bar>of_int k :: rat\<bar> = 2 * of_int c * \<bar>of_int n - 100 * ?q\<bar>"
    using c by (simp add: kq abs_mult)
  also have "\<dots> < 2 * of_int c * (1 / 2 + 1 / (2 * of_int c))"
    using lt c by (intro mult_strict_left_mono) simp_all
  also have "\<dots> = of_int c + 1" using c by (simp add: field_simps)
  finally have "(of_int \<bar>k\<bar> :: rat) < of_int (c + 1)" by simp
  then have "\<bar>k\<bar> < c + 1" by (simp only: of_int_less_iff)
  then have "\<bar>k\<bar> \<le> c" by simp
  then have "(of_int \<bar>k\<bar> :: rat) \<le> of_int c" by (simp only: of_int_le_iff)
  then have "2 * of_int c * \<bar>of_int n - 100 * ?q\<bar> \<le> (of_int c :: rat)"
    using c by (simp add: kq abs_mult)
  then have "\<bar>of_int n - 100 * ?q\<bar> \<le> 1 / 2" using c by (simp add: field_simps)
  moreover define d where "d = of_int n - 100 * ?q"
  ultimately have hd: "\<bar>d\<bar> \<le> 1 / 2" by simp
  have eq: "of_int n / 100 - ?q = d / 100" by (simp add: d_def)
  have "\<bar>d / 100\<bar> \<le> 1 / 200" using hd by simp
  then have "\<bar>of_int n / 100 - ?q\<bar> \<le> 1 / 200" by (simp only: eq)
  then show ?thesis by (simp only: n_def)
qed

lemma to_double_bound: "\<bar>to_double y\<bar> \<le> 2 * \<bar>y\<bar> + 1"
proof -
  have "pow2 (- 53) \<le> pow2 0" and "pow2 (- 1075) \<le> pow2 0" by (rule pow2_mono, simp)+
  then have a: "pow2 (- 53) \<le> 1" and b: "pow2 (- 1075) \<le> 1" by (simp_all add: pow2_def)
  have "\<bar>y\<bar> * pow2 (- 53) \<le> \<bar>y\<bar> * 1" using a by (intro mult_left_mono) simp_all
  with b have "max (\<bar>y\<bar> * pow2 (- 53)) (pow2 (- 1075)) \<le> \<bar>y\<bar> + 1" by simp
  with to_double_error [of y] have "\<bar>to_double y - y\<bar> \<le> \<bar>y\<bar> + 1" by (rule order_trans)
  then show ?thesis by (simp add: abs_if split: if_splits)
qed

lemma max_double_large: "2 ^ 53 \<le> max_double"
proof -
  have "(1::rat) * 2 ^ 53 \<le> (2 ^ 53 - 1) * 2 ^ 971"
    by (intro mult_mono power_increasing) simp_all
  then show ?thesis by (simp only: max_double_def mult_1)
qed

lemma py_float_small:
  assumes "2 * \<bar>y\<bar> + 1 \<le> 2 ^ 53"
  shows "py_float y = Inr (to_double y)"
proof -
  have "\<bar>to_double y\<bar> \<le> max_double"
    using to_double_bound [of y] assms max_double_large by linarith
  then show ?thesis by (simp add: py_float_def Let_def)
qed


lemma to_double_of_int:
  assumes "\<bar>m\<bar> < 2 ^ 53"
  shows "to_double (of_int m) = of_int m"
proof (cases "m = 0")
  case True
  then show ?thesis by (simp add: to_double_def)
next
  case False
  let ?q = "of_int m :: rat"
  define e where "e = max (ilog2 \<bar>?q\<bar> - 52) (- 1074)"
  have q: "0 < \<bar>?q\<bar>" using False by simp
  have "ilog2 \<bar>?q\<bar> < 53"
  proof (rule ccontr)
    assume "\<not> ilog2 \<bar>?q\<bar> < 53"
    then have "pow2 53 \<le> pow2 (ilog2 \<bar>?q\<bar>)" by (intro pow2_mono) simp
    also have "\<dots> \<le> \<bar>?q\<bar>" using q by (rule ilog2_le)
    finally have "(2::rat) ^ 53 \<le> \<bar>of_int m\<bar>" by (simp add: pow2_def)
    then have "(of_int (2 ^ 53) :: rat) \<le> of_int \<bar>m\<bar>" by simp
    then have "2 ^ 53 \<le> \<bar>m\<bar>" by (simp only: of_int_le_iff)
    with assms show False by simp
  qed
  then have e: "e \<le> 0" by (simp add: e_def)
  then have p: "pow2 e = 1 / 2 ^ nat (- e)"
    by (cases "e = 0") (simp_all add: pow2_def)
  have "?q / pow2 e = of_int (m * 2 ^ nat (- e))" by (simp add: p)
  then have "round_half_even (?q / pow2 e) = m * 2 ^ nat (- e)"
    by (simp only: round_half_even_of_int)
  then have "of_int (round_half_even (?q / pow2 e)) * pow2 e = ?q" by (simp add: p)
  then show ?thesis using False by (simp add: to_double_def e_def Let_def)
qed

lemma avg_sev_rounds:
  assumes "0 < count b" and "200 * \<bar>severity_sum b\<bar> < 2 ^ 53"
    and "200 * int (count b) < 2 ^ 53"
  shows "\<exists>n. avg_sev b = Inr (to_double (of_int n / 100))
           \<and> \<bar>of_int n / 100 - of_int (severity_sum b) / of_nat (count b)\<bar> \<le> (1 / 200 :: rat)"
proof -
  define s where "s = severity_sum b"
  define c where "c = int (count b)"
  let ?q = "of_int s / of_int c :: rat"
  define n where "n = round_half_even (to_double ?q * 100)"
  have c: "0 < c" using assms(1) by (simp add: c_def)
  have s: "200 * \<bar>s\<bar> < 2 ^ 53" using assms(2) by (simp add: s_def)
  have c2: "200 * c < 2 ^ 53" using assms(3) by (simp add: c_def)
  have r: "\<bar>of_int n / 100 - ?q\<bar> \<le> 1 / 200"
    unfolding n_def using c s c2 by (rule round_to_hundredths)
  have "1 \<le> (of_int c :: rat)" using c by simp
  then have "\<bar>of_int s :: rat\<bar> / of_int c \<le> \<bar>of_int s\<bar> / 1"
    by (intro divide_left_mono) simp_all
  then have qs: "\<bar>?q\<bar> \<le> \<bar>of_int s\<bar>" using c by (simp add: abs_divide)
  have "(of_int (200 * \<bar>s\<bar>) :: rat) < of_int (2 ^ 53)" using s by (simp only: of_int_less_iff)
  then have sb: "200 * \<bar>of_int s :: rat\<bar> < 2 ^ 53" by simp
  have "(2::rat) \<le> 2 ^ 53" by simp
  then have "2 * \<bar>?q\<bar> + 1 \<le> 2 ^ 53" using qs sb by linarith
  then have f1: "py_float ?q = Inr (to_double ?q)" by (rule py_float_small)
  have "\<bar>of_int n / 100 :: rat\<bar> \<le> \<bar>?q\<bar> + 1 / 200" using r by linarith
  moreover have big: "(2::rat) \<le> 2 ^ 53" by simp
  ultimately have "2 * \<bar>of_int n / 100 :: rat\<bar> + 1 \<le> 2 ^ 53" using qs sb by linarith
  then have f2: "py_float (of_int n / 100) = Inr (to_double (of_int n / 100))"
    by (rule py_float_small)
  have "c \<noteq> 0" using c by simp
  then have "avg_sev b = Inr (to_double (of_int n / 100))"
    using f1 f2 by (simp add: avg_sev_def true_divide_def py_round_def s_def [symmetric]
        c_def [symmetric] n_def [symmetric])
  moreover have "\<bar>of_int n / 100 - of_int (severity_sum b) / of_nat (count b)\<bar> \<le> (1 / 200 :: rat)"
    using r by (simp add: s_def c_def)
  ultimately show ?thesis by blast
qed

lemma sum_list_bounded:
  "\<forall>x \<in> set xs. 1 \<le> f x \<and> f x \<le> (5::int) \<Longrightarrow> \<bar>sum_list (map f xs)\<bar> \<le> 5 * int (length xs)"
  by (induction xs) auto


lemma severity_of_missing: "r ''severity_1to5'' = None \<Longrightarrow> severity_of r = 3"
  by (simp add: severity_of_def get_default_def)

lemma is_str_cases: "is_str v \<Longrightarrow> \<exists>s. v = JStr s"
  by (cases v) simp_all

lemma str_list_cases: "str_list v \<Longrightarrow> \<exists>xs. v = JList xs \<and> list_all is_str xs"
  by (cases v) simp_all

lemma is_str_hashable: "is_str v \<Longrightarrow> hashable v"
  by (cases v) simp_all

lemma conforming_key:
  assumes "conforming r"
  shows "\<exists>k. bucket_key r = Inr k"
proof -
  from assms have "is_str (get r ''dedupe_key'')" by (simp add: conforming_def)
  then obtain s where "get r ''dedupe_key'' = JStr s" using is_str_cases by blast
  then show ?thesis by (simp add: bucket_key_def Let_def)
qed

lemma conforming_severity:
  assumes "conforming r"
  shows "py_int (get_default r ''severity_1to5'' (JInt 3)) = Inr (severity_of r)"
    and "1 \<le> severity_of r" and "severity_of r \<le> 5"
proof -
  from assms have s: "severity_in_range r" by (simp add: conforming_def)
  show "py_int (get_default r ''severity_1to5'' (JInt 3)) = Inr (severity_of r)"
    using s by (auto simp: severity_in_range_def severity_of_def get_default_def
        split: option.splits json.splits)
  show "1 \<le> severity_of r" and "severity_of r \<le> 5"
    using s by (auto simp: severity_in_range_def severity_of_def get_default_def
        split: option.splits json.splits)
qed

lemma conforming_strings:
  assumes "conforming r"
  shows "is_str (audience_of r)" and "Ball (tags_of r) is_str" and "is_str (snd (example_of r))"
    and "py_set (get_default r ''primary_topic_tags'' (JList [])) = Inr (tags_of r)"
    and "\<exists>urls. py_iter (get_default r ''useful_links'' (JList [])) = Inr urls \<and> list_all hashable urls"
proof -
  from assms show "is_str (audience_of r)" by (simp add: conforming_def audience_of_def)
  from assms show "is_str (snd (example_of r))" by (simp add: conforming_def example_of_def)
  from assms obtain ts where ts: "get_default r ''primary_topic_tags'' (JList []) = JList ts"
    and tss: "list_all is_str ts"
    using str_list_cases by (auto simp: conforming_def)
  from tss have th: "list_all hashable ts" by (auto simp: list_all_iff is_str_hashable)
  then show p: "py_set (get_default r ''primary_topic_tags'' (JList [])) = Inr (tags_of r)"
    by (simp add: tags_of_def py_set_def ts)
  from tss th show "Ball (tags_of r) is_str"
    by (simp add: tags_of_def py_set_def ts list_all_iff)
  from assms obtain us where us: "get_default r ''useful_links'' (JList []) = JList us"
    and uss: "list_all is_str us"
    using str_list_cases by (auto simp: conforming_def)
  from uss have "list_all hashable us" by (auto simp: list_all_iff is_str_hashable)
  then show "\<exists>urls. py_iter (get_default r ''useful_links'' (JList [])) = Inr urls \<and> list_all hashable urls"
    by (simp add: us)
qed

lemma conforming_add:
  assumes "conforming r"
  shows "\<exists>b'. add_to_bucket r b = Inr b'"
proof -
  from conforming_strings(5) [OF assms] obtain urls where
    u: "py_iter (get_default r ''useful_links'' (JList [])) = Inr urls" and h: "list_all hashable urls"
    by blast
  have a: "hashable (get_default r ''target_audience'' (JStr []))"
    using conforming_strings(1) [OF assms] by (simp add: audience_of_def is_str_hashable)
  show ?thesis
    by (simp add: add_to_bucket_def conforming_severity(1) [OF assms] Let_def a
        conforming_strings(4) [OF assms] u h)
qed

lemma conforming_accepted: "conforming r \<Longrightarrow> accepted r"
  using conforming_key [of r] conforming_add [of r empty_bucket]
  by (auto simp: accepted_def)

lemma map_until_error_total:
  "\<forall>x \<in> set xs. \<exists>y. f x = Inr y \<Longrightarrow> \<exists>ys. map_until_error f xs = Inr ys"
proof (induction xs)
  case Nil
  show ?case by simp
next
  case (Cons x xs)
  then obtain y ys where "f x = Inr y" and "map_until_error f xs = Inr ys" by auto
  then show ?case by simp
qed

lemma map_until_error_mem:
  "map_until_error f xs = Inr ys \<Longrightarrow> x \<in> set xs \<Longrightarrow> \<exists>y \<in> set ys. f x = Inr y"
proof (induction xs arbitrary: ys)
  case Nil
  then show ?case by simp
next
  case (Cons a xs)
  then show ?case by (auto split: sum.splits)
qed

lemma map_until_error_keys:
  "map_until_error agg_row_of xs = Inr ys \<Longrightarrow> map issue_key ys = map fst xs"
proof (induction xs arbitrary: ys)
  case Nil
  then show ?case by simp
next
  case (Cons a xs)
  from Cons.prems obtain y zs where y: "agg_row_of a = Inr y"
    and zs: "map_until_error agg_row_of xs = Inr zs" and ys: "ys = y # zs"
    by (auto split: sum.splits)
  from agg_row_of_cells [OF y] have "issue_key y = fst a" by simp
  with Cons.IH [OF zs] ys show ?case by simp
qed


lemma members_subset: "set (members k rs) \<subseteq> set rs"
  by (auto simp: members_def)

lemma members_length: "length (members k rs) \<le> length rs"
  by (simp add: members_def)

lemma conforming_bucket_average:
  assumes "\<forall>r \<in> set ms. conforming r" and "ms \<noteq> []" and "length ms < 2 ^ 43"
  shows "\<exists>n. avg_sev (bucket_of ms) = Inr (to_double (of_int n / 100))
           \<and> \<bar>of_int n / 100 - of_int (severity_sum (bucket_of ms)) / of_nat (count (bucket_of ms))\<bar>
               \<le> (1 / 200 :: rat)"
proof -
  let ?b = "bucket_of ms"
  have cnt: "count ?b = length ms" by (simp add: bucket_of_def)
  have sm: "severity_sum ?b = (\<Sum>r\<leftarrow>ms. severity_of r)" by (simp add: bucket_of_def)
  from assms(3) have len: "int (length ms) < 2 ^ 43"
    by (metis of_nat_less_numeral_power_cancel_iff)
  have pos: "0 < count ?b" using assms(2) by (simp add: cnt)
  have "\<forall>r \<in> set ms. 1 \<le> severity_of r \<and> severity_of r \<le> 5"
    using assms(1) conforming_severity(2,3) by blast
  then have "\<bar>severity_sum ?b\<bar> \<le> 5 * int (length ms)"
    unfolding sm by (rule sum_list_bounded)
  with len have s: "200 * \<bar>severity_sum ?b\<bar> < 2 ^ 53" by simp
  from len have c: "200 * int (count ?b) < 2 ^ 53" by (simp add: cnt)
  show ?thesis using pos s c by (rule avg_sev_rounds)
qed

lemma conforming_bucket_row:
  assumes "\<forall>r \<in> set ms. conforming r" and "ms \<noteq> []" and "length ms < 2 ^ 43"
  shows "\<exists>row. agg_row_of (k, bucket_of ms) = Inr row"
proof -
  let ?b = "bucket_of ms"
  from conforming_bucket_average [OF assms] obtain a where a: "avg_sev ?b = Inr a" by blast
  have "Ball (set (map audience_of ms)) is_str"
    using assms(1) conforming_strings(1) by auto
  then have "Ball (Set.filter truthy (audiences ?b)) is_str"
    by (auto simp: bucket_of_def)
  then obtain au where au: "audiences_column ?b = Inr au"
    by (simp add: audiences_column_def join_sorted_def)
  have "Ball (tags ?b) is_str"
    using assms(1) conforming_strings(2) by (fastforce simp: bucket_of_def)
  then obtain tg where tg: "top_tags_column ?b = Inr tg"
    by (simp add: top_tags_column_def join_sorted_def)
  have "list_all (\<lambda>e. is_str (snd e)) (map example_of ms)"
    using assms(1) conforming_strings(3) by (simp add: list_all_iff)
  then have "\<forall>e \<in> set (map example_of ms). is_str (snd e)" by (simp add: list_all_iff)
  moreover have "set (examples ?b) \<subseteq> set (map example_of ms)"
    using set_take_subset [of 5 "map example_of ms"] by (simp add: bucket_of_def)
  ultimately have "list_all (\<lambda>e. is_str (snd e)) (examples ?b)"
    unfolding list_all_iff by blast
  then obtain ti where ti: "example_titles_column ?b = Inr ti"
    by (simp add: example_titles_column_def)
  show ?thesis by (simp add: agg_row_of_def a au tg ti)
qed

text \<open>
  Claim C4. Take fewer than \<open>2 ^ 43\<close> results, each as the schema describes it, and a
  non-empty key \<open>k\<close> that one of them has. Then aggregation succeeds and has a bucket
  under \<open>k\<close>; its count is the number of results with key \<open>k\<close> and its severity sum is
  the sum of their severities, a result without the field \<open>severity_1to5\<close> counting as 3.
  The aggregated table is produced and has exactly one row for \<open>k\<close>; its average
  severity is the float written \<open>n / 100\<close> for an integer \<open>n\<close> with \<open>n / 100\<close> within half
  a hundredth of sum divided by count, that is, the quotient rounded to two decimal
  places. For severities 1, 3 and 5 under one key the row carries 3.
\<close>

theorem average_severity:
  assumes "\<forall>r \<in> set rs. conforming r" and "length rs < 2 ^ 43"
    and "r0 \<in> set rs" and "bucket_key r0 = Inr k" and "k \<noteq> []"
  shows "(\<exists>bs b rows row.
            aggregate rs = Inr bs \<and> map_of bs k = Some b
          \<and> count b = length (members k rs)
          \<and> severity_sum b = (\<Sum>r\<leftarrow>members k rs. severity_of r)
          \<and> aggregated_rows bs = Inr rows
          \<and> row \<in> set rows \<and> issue_key row = k \<and> posts row = count b
          \<and> (\<forall>row' \<in> set rows. issue_key row' = k \<longrightarrow> row' = row)
          \<and> (\<exists>n. avg_severity row = to_double (of_int n / 100)
                 \<and> \<bar>of_int n / 100 - of_int (severity_sum b) / of_nat (count b)\<bar>
                     \<le> (1 / 200 :: rat)))
       \<and> (\<forall>r. r ''severity_1to5'' = None \<longrightarrow> severity_of r = 3)
       \<and> (\<forall>r n. r ''severity_1to5'' = Some (JInt n) \<longrightarrow> severity_of r = n)"
proof -
  let ?ms = "members k rs"
  define b where "b = bucket_of ?ms"
  have "list_all accepted rs"
    using assms(1) conforming_accepted by (simp add: list_all_iff)
  then obtain bs where agg: "aggregate rs = Inr bs" using aggregate_succeeds by blast
  have mem: "r0 \<in> set ?ms" using assms(3,4) by (simp add: members_def)
  then have ne: "?ms \<noteq> []" by auto
  have lk: "map_of bs k = Some b"
    using ne assms(5) by (simp add: aggregate_lookup [OF agg] b_def)
  have cnt: "count b = length ?ms" by (simp add: b_def bucket_of_def)
  have sm: "severity_sum b = (\<Sum>r\<leftarrow>?ms. severity_of r)" by (simp add: b_def bucket_of_def)
  have conf: "\<forall>r \<in> set (members k' rs). conforming r" for k'
    using assms(1) members_subset by blast
  have len: "length (members k' rs) < 2 ^ 43" for k'
    using members_length [of k' rs] assms(2) by (rule le_less_trans)
  have each: "\<exists>row. agg_row_of kb = Inr row" if kb: "kb \<in> set (by_count_desc bs)" for kb
  proof -
    obtain k' b' where e: "kb = (k', b')" by (cases kb)
    with kb have "(k', b') \<in> set bs" by (simp add: by_count_desc_def)
    from aggregate_bucket_of [OF agg this]
    have ne': "members k' rs \<noteq> []" and b': "b' = bucket_of (members k' rs)" by simp_all
    have "\<exists>row. agg_row_of (k', bucket_of (members k' rs)) = Inr row"
      using conf [of k'] ne' len [of k'] by (rule conforming_bucket_row)
    with e b' show ?thesis by simp
  qed
  then obtain rows where rows: "aggregated_rows bs = Inr rows"
    using map_until_error_total [of "by_count_desc bs" agg_row_of]
    by (auto simp: aggregated_rows_def)
  have "(k, b) \<in> set (by_count_desc bs)"
    using lk by (simp add: by_count_desc_def map_of_SomeD)
  from map_until_error_mem [OF rows [unfolded aggregated_rows_def] this]
  obtain row where row: "row \<in> set rows" and ar: "agg_row_of (k, b) = Inr row" by blast
  from agg_row_of_cells [OF ar] have ik: "issue_key row = k" and po: "posts row = count b"
    and av: "avg_sev b = Inr (avg_severity row)" by simp_all
  have "distinct (map fst bs)" using agg by (rule aggregate_distinct)
  then have "distinct (map fst (by_count_desc bs))"
    by (simp add: by_count_desc_def distinct_map)
  then have dk: "distinct (map issue_key rows)"
    using map_until_error_keys [OF rows [unfolded aggregated_rows_def]] by simp
  have uniq: "\<forall>row' \<in> set rows. issue_key row' = k \<longrightarrow> row' = row"
    using dk row ik by (auto simp: distinct_map inj_on_def)
  have "\<exists>n. avg_sev (bucket_of ?ms) = Inr (to_double (of_int n / 100))
           \<and> \<bar>of_int n / 100 - of_int (severity_sum (bucket_of ?ms)) / of_nat (count (bucket_of ?ms))\<bar>
               \<le> (1 / 200 :: rat)"
    using conf [of k] ne len [of k] by (rule conforming_bucket_average)
  then obtain n where
    "avg_sev b = Inr (to_double (of_int n / 100))"
    and e: "\<bar>of_int n / 100 - of_int (severity_sum b) / of_nat (count b)\<bar> \<le> (1 / 200 :: rat)"
    unfolding b_def by blast
  with av have "avg_severity row = to_double (of_int n / 100)" by simp
  with e have avg: "\<exists>n. avg_severity row = to_double (of_int n / 100)
                 \<and> \<bar>of_int n / 100 - of_int (severity_sum b) / of_nat (count b)\<bar>
                     \<le> (1 / 200 :: rat)" by blast
  have m3: "\<forall>r. r ''severity_1to5'' = None \<longrightarrow> severity_of r = 3"
    by (simp add: severity_of_missing)
  have mi: "\<forall>r n. r ''severity_1to5'' = Some (JInt n) \<longrightarrow> severity_of r = n"
    by (simp add: severity_of_def get_default_def)
  from agg lk cnt sm rows row ik po uniq avg m3 mi show ?thesis by blast
qed


theorem average_severity_witness:
  "conforming sample_minor \<and> conforming sample_medium \<and> conforming sample_major
   \<and> bucket_key sample_minor = Inr ''pricing''
   \<and> map severity_of (members ''pricing'' [sample_minor, sample_medium, sample_major]) = [1, 3, 5]
   \<and> aggregate [sample_minor, sample_medium, sample_major] =
     Inr [(''pricing'',
           \<lparr>count = 3,
            examples = [(JStr ''edtech'', JStr ''Price went up''),
                        (JStr ''Teachers'', JStr ''Licence too dear''),
                        (JStr ''edtech'', JStr ''Courses dropped'')],
            severity_sum = 9, audiences = {JStr []}, links = {}, tags = {}\<rparr>)]
   \<and> aggregated_rows [(''pricing'',
           \<lparr>count = 3,
            examples = [(JStr ''edtech'', JStr ''Price went up''),
                        (JStr ''Teachers'', JStr ''Licence too dear''),
                        (JStr ''edtech'', JStr ''Courses dropped'')],
            severity_sum = 9, audiences = {JStr []}, links = {}, tags = {}\<rparr>)] =
     Inr [\<lparr>issue_key = ''pricing'', posts = 3, avg_severity = 3, audiences_cell = [],
           top_tags = [],
           example_titles = ''Price went up; Licence too dear; Courses dropped'',
           links_count = 0\<rparr>]"
proof -
  let ?rs = "[sample_minor, sample_medium, sample_major]"
  let ?b = "\<lparr>count = 3,
            examples = [(JStr ''edtech'', JStr ''Price went up''),
                        (JStr ''Teachers'', JStr ''Licence too dear''),
                        (JStr ''edtech'', JStr ''Courses dropped'')],
            severity_sum = 9, audiences = {JStr []}, links = {}, tags = {}\<rparr>"
  have c1: "conforming sample_minor" by code_simp
  have c2: "conforming sample_medium" by code_simp
  have c3: "conforming sample_major" by code_simp
  have c: "\<forall>r \<in> set ?rs. conforming r" using c1 c2 c3 by simp
  have l: "length ?rs < 2 ^ 43" by simp
  have m: "sample_minor \<in> set ?rs" by simp
  have k: "bucket_key sample_minor = Inr ''pricing''" by code_simp
  have ne: "''pricing'' \<noteq> []" by simp
  have sv: "map severity_of (members ''pricing'' ?rs) = [1, 3, 5]" by code_simp
  have h: "aggregate ?rs = Inr [(''pricing'', ?b)]" by code_simp
  from average_severity [OF c l m k ne]
  have "\<exists>bs b rows row.
            aggregate ?rs = Inr bs \<and> map_of bs ''pricing'' = Some b
          \<and> count b = length (members ''pricing'' ?rs)
          \<and> severity_sum b = (\<Sum>r\<leftarrow>members ''pricing'' ?rs. severity_of r)
          \<and> aggregated_rows bs = Inr rows
          \<and> row \<in> set rows \<and> issue_key row = ''pricing'' \<and> posts row = count b
          \<and> (\<forall>row' \<in> set rows. issue_key row' = ''pricing'' \<longrightarrow> row' = row)
          \<and> (\<exists>n. avg_severity row = to_double (of_int n / 100)
                 \<and> \<bar>of_int n / 100 - of_int (severity_sum b) / of_nat (count b)\<bar>
                     \<le> (1 / 200 :: rat))"
    by (rule conjunct1)
  then obtain bs b rows row n where agg: "aggregate ?rs = Inr bs"
    and lk: "map_of bs ''pricing'' = Some b"
    and rows: "aggregated_rows bs = Inr rows" and row: "row \<in> set rows"
    and a: "avg_severity row = to_double (of_int n / 100)"
    and e: "\<bar>of_int n / 100 - of_int (severity_sum b) / of_nat (count b)\<bar> \<le> (1 / 200 :: rat)"
    by blast
  from agg h have bs: "bs = [(''pricing'', ?b)]" by simp
  with lk have b: "b = ?b" by simp
  from e have "\<bar>(of_int n :: rat) / 100 - 3\<bar> \<le> 1 / 200" by (simp add: b)
  then have "\<bar>(of_int n :: rat) - 300\<bar> < 1" by linarith
  then have "\<bar>(of_int (n - 300) :: rat)\<bar> < of_int 1" by simp
  then have "\<bar>n - 300\<bar> < 1" by (simp only: of_int_abs [symmetric] of_int_less_iff)
  then have n: "n = 300" by simp
  have "to_double (of_int 3) = of_int 3" by (rule to_double_of_int) simp
  then have "to_double 3 = 3" by simp
  with a n have a3: "avg_severity row = 3" by simp
  from rows obtain y where y: "agg_row_of (''pricing'', ?b) = Inr y" and ry: "rows = [y]"
    by (auto simp: bs aggregated_rows_def by_count_desc_def split: sum.splits)
  with row have "row = y" by simp
  with agg_row_of_cells [OF y] a3 have av: "avg_sev ?b = Inr 3" by simp
  have au: "audiences_column ?b = Inr []" by code_simp
  have tg: "top_tags_column ?b = Inr []" by code_simp
  have ti: "example_titles_column ?b =
              Inr ''Price went up; Licence too dear; Courses dropped''" by code_simp
  have "agg_row_of (''pricing'', ?b) =
     Inr \<lparr>issue_key = ''pricing'', posts = 3, avg_severity = 3, audiences_cell = [],
          top_tags = [],
          example_titles = ''Price went up; Licence too dear; Courses dropped'',
          links_count = 0\<rparr>"
    by (simp add: agg_row_of_def av au tg ti)
  then have "aggregated_rows [(''pricing'', ?b)] =
     Inr [\<lparr>issue_key = ''pricing'', posts = 3, avg_severity = 3, audiences_cell = [],
           top_tags = [],
           example_titles = ''Price went up; Licence too dear; Courses dropped'',
           links_count = 0\<rparr>]"
    by (simp add: aggregated_rows_def by_count_desc_def)
  with c1 c2 c3 k sv h show ?thesis by blast
qed


lemma missing_severity_counts_as_three:
  "aggregate [sample_minor, sample_unrated, sample_major] =
     Inr [(''pricing'',
           \<lparr>count = 3,
            examples = [(JStr ''edtech'', JStr ''Price went up''),
                        (JStr ''Teachers'', JStr ''Fees''),
                        (JStr ''edtech'', JStr ''Courses dropped'')],
            severity_sum = 9, audiences = {JStr []}, links = {}, tags = {}\<rparr>)]"
  by code_simp


text \<open>
  An exact tie follows the float: 107 / 40 = 2.675 lies halfway between 2.67 and 2.68,
  the float nearest to 2.675 lies below it, and the average is the float written 2.67.
\<close>

lemma exact_tie_follows_the_float:
  "avg_sev \<lparr>count = 40, examples = [], severity_sum = 107, audiences = {}, links = {},
            tags = {}\<rparr> = Inr (to_double (267 / 100))"
  by code_simp

section \<open>Properties of the per-post tables\<close>

lemma py_slice_Nil: "py_slice [] lo hi = []"
  by (simp add: py_slice_def)

text \<open>
  Claim C9. With an empty list of analyses, whatever the row cap, the Markdown writer
  writes exactly two lines: the header row and the separator row, and no data row.
\<close>

theorem md_writer_without_results:
  "write_per_post_md [] top_n =
     Inr [''| post_id | subreddit | title | sentiment | severity_1to5 | target_audience | primary_topic_tags | problem_statements | questions_users_ask | proposed_solutions | useful_links | dedupe_key |'' @ [newline],
          ''|---|---|---|---|---|---|---|---|---|---|---|---|'' @ [newline]]"
  by (simp add: write_per_post_md_def py_slice_Nil md_headers_def eval_nat_numeral)

text \<open>
  Claim C7 asks for a file holding only the header row of the fallback columns when the
  list of analyses is empty. The writer puts the header row there, and after it the one
  row of twelve empty cells that it made up to obtain the field names.
\<close>

theorem csv_writer_without_results:
  "write_per_post_csv [] =
     Inr [[''post_id'', ''subreddit'', ''title'', ''sentiment'', ''severity_1to5'',
           ''target_audience'', ''primary_topic_tags'', ''problem_statements'',
           ''questions_users_ask'', ''proposed_solutions'', ''useful_links'', ''dedupe_key''],
          [[], [], [], [], [], [], [], [], [], [], [], []]]"
  by (simp add: write_per_post_csv_def fallback_fieldnames_def row_get_def)

lemma csv_writer_with_one_result:
  "write_per_post_csv [sample_crash] =
     Inr [[''post_id'', ''subreddit'', ''title'', ''theme'', ''sub_theme'',
           ''stakeholders'', ''problem_statements'', ''questions_users_ask'',
           ''proposed_solutions'', ''useful_links'', ''sentiment'',
           ''severity_1to5'', ''dedupe_key''],
          [''p1'', ''edtech'', ''App crashes'', ''LMS/Platform UX'', [], [],
           ''the app crashes on login'', [], [], ''https://example.org/a'', [],
           ''4'', '' LMS crashes '']]"
  by code_simp


end
